theory Spec2Isabelle
  imports Main "HOL-Library.Char_ord" "HOL-Library.List_Lexorder" "HOL-Library.Product_Lexorder"
begin

section \<open>Data model of \<^verbatim>\<open>at_stop_corona_dump.py\<close>\<close>

text \<open>
  Python's unbounded integers are \<^typ>\<open>int\<close>. A \<^verbatim>\<open>datetime\<close> is the number of seconds
  since the epoch (an \<^typ>\<open>int\<close>), a \<^verbatim>\<open>timedelta\<close> a difference of two of them.
  \<^verbatim>\<open>bytes\<close> is a list of 8-bit characters. Exceptions are values of \<open>py_error\<close>.
\<close>

datatype py_error = KeyError | ValueError | TypeError

text \<open>The frozen dataclass \<^verbatim>\<open>TEK\<close>: equality and hashing are over all four fields.\<close>

record TEK =
  data :: string
  interval :: int
  level :: int
  period :: int

text \<open>
  The property \<^verbatim>\<open>TEK.dt\<close> is \<^verbatim>\<open>datetime.utcfromtimestamp(self.interval*600)\<close>. A
  \<^verbatim>\<open>datetime\<close> holds the years 1 to 9999 only; outside them the call raises.
\<close>

definition MIN_TIMESTAMP :: int where
  "MIN_TIMESTAMP = - 62135596800"

definition MAX_TIMESTAMP :: int where
  "MAX_TIMESTAMP = 253402300799"

definition utcfromtimestamp :: "int \<Rightarrow> py_error + int" where
  "utcfromtimestamp t =
     (if MIN_TIMESTAMP \<le> t \<and> t \<le> MAX_TIMESTAMP then Inr t else Inl ValueError)"

definition TEK_dt :: "TEK \<Rightarrow> py_error + int" where
  "TEK_dt k = utcfromtimestamp (interval k * 600)"

text \<open>
  The three event classes. Each carries the key and the datetime of the event; the
  revoked and auto-removed events also carry when the key was added, the added
  event whether its metadata changed.
\<close>

datatype Event =
    RevokedEvent (key: TEK) (dt: int) (added_dt: int)
  | AddedEvent (key: TEK) (dt: int) (changed: bool)
  | AutoRemovedEvent (key: TEK) (dt: int) (added_dt: int)

text \<open>\<^verbatim>\<open>str(type(e))\<close> for an event of the script run as the main module.\<close>

fun type_str :: "Event \<Rightarrow> string" where
  "type_str (RevokedEvent _ _ _) = ''<class '__main__.RevokedEvent'>''"
| "type_str (AddedEvent _ _ _) = ''<class '__main__.AddedEvent'>''"
| "type_str (AutoRemovedEvent _ _ _) = ''<class '__main__.AutoRemovedEvent'>''"

text \<open>
  The module-level variables of the script. The set \<^verbatim>\<open>all_keys\<close> is iterated, so it
  is a list without duplicates, in insertion order (Python fixes some order by the
  hashes): membership is \<open>\<in> set\<close>, \<^verbatim>\<open>add\<close> appends, \<^verbatim>\<open>remove\<close> deletes.
  \<^verbatim>\<open>prev_keys\<close> and \<^verbatim>\<open>prev_dt\<close> are set together, both \<^verbatim>\<open>None\<close> at first, so
  they are one optional pair.
\<close>

record state =
  all_keys :: "TEK list"
  revoked_keys :: "TEK set"
  prev :: "(TEK list \<times> int) option"
  events :: "Event list"
  added_when :: "TEK \<rightharpoonup> int"
  dts :: "int list"

definition init :: state where
  "init = \<lparr>all_keys = [], revoked_keys = {}, prev = None, events = [],
           added_when = Map.empty, dts = []\<rparr>"

section \<open>The event extractor\<close>

text \<open>A loop whose body may raise: the first exception ends it.\<close>

fun for_each :: "('s \<Rightarrow> 'a \<Rightarrow> py_error + 's) \<Rightarrow> 'a list \<Rightarrow> 's \<Rightarrow> py_error + 's" where
  "for_each body [] s = Inr s"
| "for_each body (x # xs) s =
     (case body s x of Inl e \<Rightarrow> Inl e | Inr s' \<Rightarrow> for_each body xs s')"

text \<open>
  \<^verbatim>\<open>inter = list(set(now_keys) & set(prev_keys))\<close>, then
  \<^verbatim>\<open>inter.sort(key=lambda key: 1000 * key.level + key.interval)\<close> (a stable sort).
  Python lists a set in the order of its hash table; here the intersection is listed
  in the order of \<^verbatim>\<open>now_keys\<close>, each key once, before it is sorted.
\<close>

definition inter_keys :: "TEK list \<Rightarrow> TEK list \<Rightarrow> TEK list" where
  "inter_keys now_keys prev_keys =
     sort_key (\<lambda>k. 1000 * level k + interval k)
       (filter (\<lambda>k. k \<in> set prev_keys) (remdups now_keys))"

text \<open>The body of the loop that finds ADD events.\<close>

definition add_key :: "int \<Rightarrow> state \<Rightarrow> TEK \<Rightarrow> state" where
  "add_key prev_dt st k =
     (if k \<notin> set (all_keys st) then
        st\<lparr>added_when := (added_when st)(k \<mapsto> prev_dt),
           events := events st @
             [AddedEvent k prev_dt (list_ex (\<lambda>o'. data k = data o') (all_keys st))],
           all_keys := all_keys st @ [k]\<rparr>
      else st)"

definition find_adds :: "int \<Rightarrow> TEK list \<Rightarrow> state \<Rightarrow> state" where
  "find_adds prev_dt inter' st = fold (\<lambda>k s. add_key prev_dt s k) inter' st"

text \<open>
  The body of the loop that finds REVOKE and AUTO_REMOVE events. The age is computed
  first, then \<^verbatim>\<open>added_when[key]\<close> is looked up, and last the key is removed from the set;
  8 days are 691200 seconds.
\<close>

definition depart_key :: "int \<Rightarrow> TEK list \<Rightarrow> state \<Rightarrow> TEK \<Rightarrow> py_error + state" where
  "depart_key now_dt inter' st k =
     (if k \<notin> set inter' then
        (case TEK_dt k of
           Inl e \<Rightarrow> Inl e
         | Inr key_dt \<Rightarrow>
            (case added_when st k of
               None \<Rightarrow> Inl KeyError
             | Some adt \<Rightarrow>
                (let st' =
                   (if now_dt - key_dt \<le> 691200 then
                      st\<lparr>events := events st @ [RevokedEvent k now_dt adt],
                         revoked_keys := insert k (revoked_keys st)\<rparr>
                    else
                      st\<lparr>events := events st @ [AutoRemovedEvent k now_dt adt]\<rparr>)
                 in if k \<in> set (all_keys st') then
                      Inr (st'\<lparr>all_keys := removeAll k (all_keys st')\<rparr>)
                    else Inl KeyError)))
      else Inr st)"

definition find_departures :: "int \<Rightarrow> TEK list \<Rightarrow> state \<Rightarrow> py_error + state" where
  "find_departures now_dt inter' st = for_each (depart_key now_dt inter') (all_keys st) st"

text \<open>
  The body of the loop over the archives. An archive is taken as its datetime
  (\<^verbatim>\<open>archive.dt\<close>) and its keys (\<^verbatim>\<open>archive.load_keys()\<close>); reading the files is not
  modelled. The list \<^verbatim>\<open>archives\<close> is an argument: the script builds it from the
  name \<^verbatim>\<open>at_14d_files\<close>, which it does not define.
\<close>

definition process_archive :: "state \<Rightarrow> int \<times> TEK list \<Rightarrow> py_error + state" where
  "process_archive st0 archive =
     (let now_dt = fst archive; now_keys = snd archive;
          st = st0\<lparr>dts := dts st0 @ [now_dt]\<rparr>
      in case prev st of
           None \<Rightarrow> Inr (st\<lparr>prev := Some (now_keys, now_dt)\<rparr>)
         | Some (prev_keys, prev_dt) \<Rightarrow>
            (let inter' = inter_keys now_keys prev_keys in
             case find_departures now_dt inter' (find_adds prev_dt inter' st) of
               Inl e \<Rightarrow> Inl e
             | Inr st' \<Rightarrow> Inr (st'\<lparr>prev := Some (now_keys, now_dt)\<rparr>)))"

definition walk :: "(int \<times> TEK list) list \<Rightarrow> py_error + state" where
  "walk archives = for_each process_archive archives init"

text \<open>
  The pass for the last archive, against the keys of the 14-day archive:
  \<^verbatim>\<open>set(prev_keys)\<close> raises when \<^verbatim>\<open>prev_keys\<close> is still \<^verbatim>\<open>None\<close>.
\<close>

definition last_pass :: "TEK list \<Rightarrow> state \<Rightarrow> py_error + state" where
  "last_pass last_keys st =
     (case prev st of
        None \<Rightarrow> Inl TypeError
      | Some (prev_keys, prev_dt) \<Rightarrow>
          Inr (find_adds prev_dt (inter_keys last_keys prev_keys) st))"

definition extract_events :: "(int \<times> TEK list) list \<Rightarrow> TEK list \<Rightarrow> py_error + state" where
  "extract_events archives last_keys =
     (case walk archives of Inl e \<Rightarrow> Inl e | Inr st \<Rightarrow> last_pass last_keys st)"

section \<open>Sorting the events\<close>

text \<open>
  \<^verbatim>\<open>events.sort(key=lambda e: (e.dt, str(type(e)), e.key.level, e.key.dt))\<close>: the
  key of every event is computed first (\<^verbatim>\<open>e.key.dt\<close> may raise), then the list is
  sorted by these tuples, compared lexicographically; the sort is stable.
\<close>

definition event_sort_key :: "Event \<Rightarrow> py_error + (int \<times> string \<times> int \<times> int)" where
  "event_sort_key e =
     (case TEK_dt (key e) of
        Inl err \<Rightarrow> Inl err
      | Inr key_dt \<Rightarrow> Inr (dt e, type_str e, level (key e), key_dt))"

fun decorate :: "Event list \<Rightarrow> py_error + ((int \<times> string \<times> int \<times> int) \<times> Event) list" where
  "decorate [] = Inr []"
| "decorate (e # es) =
     (case event_sort_key e of
        Inl err \<Rightarrow> Inl err
      | Inr k \<Rightarrow> (case decorate es of Inl err \<Rightarrow> Inl err | Inr kes \<Rightarrow> Inr ((k, e) # kes)))"

definition sort_events :: "Event list \<Rightarrow> py_error + Event list" where
  "sort_events evs =
     (case decorate evs of Inl err \<Rightarrow> Inl err | Inr kes \<Rightarrow> Inr (map snd (sort_key fst kes)))"

section \<open>Counting the unrevoked red keys\<close>

text \<open>
  \<^verbatim>\<open>tot_days_count\<close> and \<^verbatim>\<open>days_count\<close> are \<^verbatim>\<open>defaultdict(int)\<close>: a dictionary in
  insertion order, where \<^verbatim>\<open>d[k] += 1\<close> starts a missing entry at 0.
\<close>

fun incr :: "(int \<times> int) list \<Rightarrow> int \<Rightarrow> (int \<times> int) list" where
  "incr [] k = [(k, 1)]"
| "incr ((k', c) # m) k = (if k' = k then (k', c + 1) # m else (k', c) # incr m k)"

text \<open>\<^verbatim>\<open>max\<close> of a sequence raises on an empty one.\<close>

definition py_max :: "int list \<Rightarrow> py_error + int" where
  "py_max vs = (case vs of [] \<Rightarrow> Inl ValueError | v # vs' \<Rightarrow> Inr (fold max vs' v))"

text \<open>
  The body of the loop over the events of one archive datetime, as far as it counts:
  both dictionaries are incremented for an added key of level 5 that is not in
  \<^verbatim>\<open>revoked_keys\<close>.
\<close>

definition count_event ::
  "TEK set \<Rightarrow> (int \<times> int) list \<times> (int \<times> int) list \<Rightarrow> Event
     \<Rightarrow> (int \<times> int) list \<times> (int \<times> int) list" where
  "count_event revoked counts e =
     (case e of
        RevokedEvent k _ _ \<Rightarrow> counts
      | AddedEvent k _ _ \<Rightarrow>
          (if level k = 5 \<and> k \<notin> revoked
           then (incr (fst counts) (interval k), incr (snd counts) (interval k))
           else counts)
      | AutoRemovedEvent k _ _ \<Rightarrow> counts)"

text \<open>
  The body of the loop over \<^verbatim>\<open>dts\<close>: the events of that datetime are counted into a
  fresh \<^verbatim>\<open>days_count\<close> and into \<^verbatim>\<open>tot_days_count\<close>; the line "At least ... people
  diagnosed." is printed only when \<^verbatim>\<open>days_count\<close> is not empty. The result is the
  number printed (if any) and the new \<^verbatim>\<open>tot_days_count\<close>.
\<close>

definition report_dt ::
  "TEK set \<Rightarrow> Event list \<Rightarrow> (int \<times> int) list \<Rightarrow> int
     \<Rightarrow> py_error + (int option \<times> (int \<times> int) list)" where
  "report_dt revoked evs tot d =
     (let gevents = filter (\<lambda>e. dt e = d) evs;
          counts = fold (\<lambda>e c. count_event revoked c e) gevents ([], tot)
      in if fst counts \<noteq> [] then
           (case py_max (map snd (fst counts)) of
              Inl err \<Rightarrow> Inl err
            | Inr m \<Rightarrow> Inr (Some m, snd counts))
         else Inr (None, snd counts))"

fun report_dts ::
  "TEK set \<Rightarrow> Event list \<Rightarrow> (int \<times> int) list \<Rightarrow> int list
     \<Rightarrow> py_error + (int option list \<times> (int \<times> int) list)" where
  "report_dts revoked evs tot [] = Inr ([], tot)"
| "report_dts revoked evs tot (d # ds) =
     (case report_dt revoked evs tot d of
        Inl err \<Rightarrow> Inl err
      | Inr (line, tot') \<Rightarrow>
          (case report_dts revoked evs tot' ds of
             Inl err \<Rightarrow> Inl err
           | Inr (lines, tot'') \<Rightarrow> Inr (line # lines, tot'')))"

text \<open>
  What the script computes: the sorted events, the number printed for each archive
  datetime, \<^verbatim>\<open>tot_days_count\<close>, and the last line
  \<^verbatim>\<open>max(tot_days_count.values())\<close>.
\<close>

record report =
  sorted_events :: "Event list"
  diagnosed_per_dt :: "int option list"
  tot_days_count :: "(int \<times> int) list"
  diagnosed :: int

definition main :: "(int \<times> TEK list) list \<Rightarrow> TEK list \<Rightarrow> py_error + report" where
  "main archives last_keys =
     (case extract_events archives last_keys of
        Inl err \<Rightarrow> Inl err
      | Inr st \<Rightarrow>
         (case sort_events (events st) of
            Inl err \<Rightarrow> Inl err
          | Inr evs \<Rightarrow>
             (case report_dts (revoked_keys st) evs [] (dts st) of
                Inl err \<Rightarrow> Inl err
              | Inr (lines, tot) \<Rightarrow>
                 (case py_max (map snd tot) of
                    Inl err \<Rightarrow> Inl err
                  | Inr m \<Rightarrow>
                      Inr \<lparr>sorted_events = evs, diagnosed_per_dt = lines,
                           tot_days_count = tot, diagnosed = m\<rparr>))))"

section \<open>Notions used in the statements\<close>

text \<open>The class of an event.\<close>

fun is_added :: "Event \<Rightarrow> bool" where
  "is_added (AddedEvent _ _ _) = True"
| "is_added _ = False"

fun is_revoked :: "Event \<Rightarrow> bool" where
  "is_revoked (RevokedEvent _ _ _) = True"
| "is_revoked _ = False"

fun is_auto_removed :: "Event \<Rightarrow> bool" where
  "is_auto_removed (AutoRemovedEvent _ _ _) = True"
| "is_auto_removed _ = False"

text \<open>
  The event that the departure loop appends for a key of age
  \<open>now_dt - interval k * 600\<close> seconds that was added at \<open>adt\<close>.
\<close>

definition departure :: "int \<Rightarrow> int \<Rightarrow> TEK \<Rightarrow> Event" where
  "departure now_dt adt k =
     (if now_dt - interval k * 600 \<le> 691200 then RevokedEvent k now_dt adt
      else AutoRemovedEvent k now_dt adt)"

text \<open>
  The keys that are open after a list of events, starting from the open keys \<open>L\<close>:
  an added event opens its key, a revoked or auto-removed event closes it.
\<close>

fun live_after :: "TEK set \<Rightarrow> Event list \<Rightarrow> TEK set" where
  "live_after L [] = L"
| "live_after L (e # es) =
     live_after (if is_added e then insert (key e) L else L - {key e}) es"

text \<open>No added event in the list is for a key that is open at that point.\<close>

fun no_double_add :: "TEK set \<Rightarrow> Event list \<Rightarrow> bool" where
  "no_double_add L [] = True"
| "no_double_add L (e # es) =
     (if is_added e then key e \<notin> L \<and> no_double_add (insert (key e) L) es
      else no_double_add (L - {key e}) es)"

text \<open>
  The live keys form a set (the list has no duplicates) and each of them has an entry
  in \<^verbatim>\<open>added_when\<close>.
\<close>

definition keys_recorded :: "state \<Rightarrow> bool" where
  "keys_recorded st \<longleftrightarrow>
     distinct (all_keys st) \<and> (\<forall>k\<in>set (all_keys st). added_when st k \<noteq> None)"

text \<open>Reading a \<^verbatim>\<open>defaultdict(int)\<close>: a missing entry counts as 0.\<close>

definition lookup_count :: "(int \<times> int) list \<Rightarrow> int \<Rightarrow> int" where
  "lookup_count m b = (case map_of m b of None \<Rightarrow> 0 | Some c \<Rightarrow> c)"

text \<open>A dictionary of counts: every key once, every count at least 1.\<close>

definition tally_ok :: "(int \<times> int) list \<Rightarrow> bool" where
  "tally_ok m \<longleftrightarrow> distinct (map fst m) \<and> (\<forall>p\<in>set m. 1 \<le> snd p)"

section \<open>Example inputs\<close>

text \<open>
  A key that starts on 2020-06-27 00:00 UTC (interval 2655360, that is 1593216000
  seconds), and the variables of the script after two archives that both hold it,
  of 2020-07-03 00:00 and 2020-07-04 00:00.
\<close>

definition key_A :: TEK where
  "key_A = \<lparr>data = ''A'', interval = 2655360, level = 5, period = 144\<rparr>"

definition state_A :: state where
  "state_A =
     \<lparr>all_keys = [key_A], revoked_keys = {}, prev = Some ([key_A], 1593820800),
      events = [AddedEvent key_A 1593734400 False],
      added_when = [key_A \<mapsto> 1593734400], dts = [1593734400, 1593820800]\<rparr>"

text \<open>
  A second key of the same day, of level 2, and three padding keys. \<open>state_B\<close> holds
  the variables of the script after the archives \<open>[key_A, key_P1]\<close> and
  \<open>[key_A, key_B, key_P2]\<close>.
\<close>

definition key_B :: TEK where
  "key_B = \<lparr>data = ''B'', interval = 2655360, level = 2, period = 144\<rparr>"

definition key_P1 :: TEK where
  "key_P1 = \<lparr>data = ''P1'', interval = 2655072, level = 2, period = 144\<rparr>"

definition key_P2 :: TEK where
  "key_P2 = \<lparr>data = ''P2'', interval = 2655216, level = 5, period = 144\<rparr>"

definition key_P3 :: TEK where
  "key_P3 = \<lparr>data = ''P3'', interval = 2655360, level = 2, period = 144\<rparr>"

definition state_B :: state where
  "state_B =
     \<lparr>all_keys = [key_A], revoked_keys = {},
      prev = Some ([key_A, key_B, key_P2], 1593820800),
      events = [AddedEvent key_A 1593734400 False],
      added_when = [key_A \<mapsto> 1593734400], dts = [1593734400, 1593820800]\<rparr>"

text \<open>A second key of level 5 of the same day.\<close>

definition key_C :: TEK where
  "key_C = \<lparr>data = ''C'', interval = 2655360, level = 5, period = 144\<rparr>"

text \<open>A key with the data of \<open>key_A\<close> and level 2.\<close>

definition key_A2 :: TEK where
  "key_A2 = \<lparr>data = ''A'', interval = 2655360, level = 2, period = 144\<rparr>"

section \<open>Properties of the loops\<close>

subsection \<open>The loop combinator\<close>

lemma for_each_append:
  "for_each body (xs @ ys) s =
     (case for_each body xs s of Inl e \<Rightarrow> Inl e | Inr s' \<Rightarrow> for_each body ys s')"
  by (induction xs arbitrary: s) (auto split: sum.splits)

lemma for_each_invariant:
  assumes "for_each body xs s = Inr s'" and "P s"
    and "\<And>t x t'. P t \<Longrightarrow> x \<in> set xs \<Longrightarrow> body t x = Inr t' \<Longrightarrow> P t'"
  shows "P s'"
  using assms
proof (induction xs arbitrary: s)
  case Nil
  then show ?case by simp
next
  case (Cons x xs)
  from Cons.prems(1) obtain s1 where b: "body s x = Inr s1" and r: "for_each body xs s1 = Inr s'"
    by (auto split: sum.splits)
  have "P s1" using Cons.prems(3) [OF Cons.prems(2) _ b] by simp
  moreover have "\<And>t y t'. P t \<Longrightarrow> y \<in> set xs \<Longrightarrow> body t y = Inr t' \<Longrightarrow> P t'"
    using Cons.prems(3) by (meson list.set_intros(2))
  ultimately show ?case using Cons.IH [OF r] by blast
qed

subsection \<open>The add loop\<close>

lemma add_key_fields [simp]:
  "revoked_keys (add_key pdt st k) = revoked_keys st"
  "prev (add_key pdt st k) = prev st"
  "dts (add_key pdt st k) = dts st"
  by (simp_all add: add_key_def)

lemma find_adds_Nil [simp]: "find_adds pdt [] st = st"
  by (simp add: find_adds_def)

lemma find_adds_Cons [simp]: "find_adds pdt (k # ks) st = find_adds pdt ks (add_key pdt st k)"
  by (simp add: find_adds_def)

lemma find_adds_fields [simp]:
  "revoked_keys (find_adds pdt ks st) = revoked_keys st"
  "prev (find_adds pdt ks st) = prev st"
  "dts (find_adds pdt ks st) = dts st"
  by (induction ks arbitrary: st) simp_all

lemma set_all_keys_add_key: "set (all_keys (add_key pdt st k)) = insert k (set (all_keys st))"
  by (auto simp: add_key_def)

lemma set_all_keys_find_adds:
  "set (all_keys (find_adds pdt ks st)) = set (all_keys st) \<union> set ks"
  by (induction ks arbitrary: st) (auto simp: set_all_keys_add_key)

lemma distinct_add_key: "distinct (all_keys st) \<Longrightarrow> distinct (all_keys (add_key pdt st k))"
  by (simp add: add_key_def)

lemma distinct_find_adds: "distinct (all_keys st) \<Longrightarrow> distinct (all_keys (find_adds pdt ks st))"
  by (induction ks arbitrary: st) (simp_all add: distinct_add_key)

lemma dom_added_when_add_key:
  "set (all_keys st) \<subseteq> dom (added_when st) \<Longrightarrow>
   set (all_keys (add_key pdt st k)) \<subseteq> dom (added_when (add_key pdt st k))"
  by (auto simp: add_key_def)

lemma dom_added_when_find_adds:
  "set (all_keys st) \<subseteq> dom (added_when st) \<Longrightarrow>
   set (all_keys (find_adds pdt ks st)) \<subseteq> dom (added_when (find_adds pdt ks st))"
proof (induction ks arbitrary: st)
  case Nil
  then show ?case by simp
next
  case (Cons k ks)
  show ?case using Cons.IH [OF dom_added_when_add_key [OF Cons.prems]] by simp
qed

text \<open>What the add loop appends: added events only, of keys of the intersection that
  were not live, dated with the earlier archive.\<close>

lemma events_add_key:
  "\<exists>new. events (add_key pdt st k) = events st @ new \<and>
     (\<forall>e\<in>set new. is_added e \<and> key e = k \<and> k \<notin> set (all_keys st) \<and> dt e = pdt)"
  by (simp add: add_key_def)

lemma events_find_adds:
  "\<exists>new. events (find_adds pdt ks st) = events st @ new \<and>
     (\<forall>e\<in>set new. is_added e \<and> key e \<in> set ks \<and> key e \<notin> set (all_keys st) \<and> dt e = pdt)"
proof (induction ks arbitrary: st)
  case Nil
  then show ?case by simp
next
  case (Cons k ks)
  obtain n1 where n1: "events (add_key pdt st k) = events st @ n1"
    "\<forall>e\<in>set n1. is_added e \<and> key e = k \<and> k \<notin> set (all_keys st) \<and> dt e = pdt"
    using events_add_key by blast
  obtain n2 where n2: "events (find_adds pdt ks (add_key pdt st k)) = events (add_key pdt st k) @ n2"
    "\<forall>e\<in>set n2. is_added e \<and> key e \<in> set ks \<and> key e \<notin> set (all_keys (add_key pdt st k)) \<and> dt e = pdt"
    using Cons.IH by blast
  have "events (find_adds pdt (k # ks) st) = events st @ (n1 @ n2)"
    using n1(1) n2(1) by simp
  moreover have "\<forall>e\<in>set (n1 @ n2). is_added e \<and> key e \<in> set (k # ks) \<and> key e \<notin> set (all_keys st) \<and> dt e = pdt"
    using n1(2) n2(2) by (auto simp: set_all_keys_add_key)
  ultimately show ?case by blast
qed

subsection \<open>The departure loop\<close>

lemma TEK_dt_Inr: "TEK_dt k = Inr t \<Longrightarrow> t = interval k * 600"
  by (auto simp: TEK_dt_def utcfromtimestamp_def split: if_splits)

lemma TEK_dt_Inl: "TEK_dt k = Inl e \<Longrightarrow> e = ValueError"
  by (auto simp: TEK_dt_def utcfromtimestamp_def split: if_splits)

lemma departure_simps [simp]:
  "key (departure now_dt adt k) = k"
  "dt (departure now_dt adt k) = now_dt"
  "\<not> is_added (departure now_dt adt k)"
  by (simp_all add: departure_def)

lemma depart_key_skip: "k \<in> set I \<Longrightarrow> depart_key now_dt I st k = Inr st"
  by (simp add: depart_key_def)

lemma depart_key_Inr:
  assumes "depart_key now_dt I st k = Inr st'" and "k \<notin> set I"
  shows "\<exists>adt. added_when st k = Some adt \<and> TEK_dt k = Inr (interval k * 600) \<and>
           k \<in> set (all_keys st) \<and>
           events st' = events st @ [departure now_dt adt k] \<and>
           revoked_keys st' =
             (if now_dt - interval k * 600 \<le> 691200 then insert k (revoked_keys st)
              else revoked_keys st) \<and>
           all_keys st' = removeAll k (all_keys st) \<and>
           added_when st' = added_when st \<and> prev st' = prev st \<and> dts st' = dts st"
proof -
  from assms obtain t where t: "TEK_dt k = Inr t"
    by (auto simp: depart_key_def split: sum.splits)
  then have t_eq: "t = interval k * 600" by (rule TEK_dt_Inr)
  from assms t obtain adt where adt: "added_when st k = Some adt"
    by (auto simp: depart_key_def split: option.splits)
  show ?thesis
    using assms t adt unfolding t_eq
    by (auto simp: depart_key_def departure_def Let_def split: if_splits)
qed

lemma depart_loop_Inr:
  assumes "for_each (depart_key now_dt I) ks st = Inr st'"
  shows "events st' = events st @
           map (\<lambda>k. departure now_dt (the (added_when st k)) k) (filter (\<lambda>k. k \<notin> set I) ks) \<and>
         revoked_keys st' =
           revoked_keys st \<union> {k \<in> set ks. k \<notin> set I \<and> now_dt - interval k * 600 \<le> 691200} \<and>
         all_keys st' = filter (\<lambda>k. k \<in> set I \<or> k \<notin> set ks) (all_keys st) \<and>
         added_when st' = added_when st \<and> prev st' = prev st \<and> dts st' = dts st \<and>
         (\<forall>k\<in>set ks. k \<notin> set I \<longrightarrow>
            added_when st k \<noteq> None \<and> TEK_dt k = Inr (interval k * 600))"
  using assms
proof (induction ks arbitrary: st)
  case Nil
  then show ?case by simp
next
  case (Cons x xs)
  from Cons.prems obtain st1 where
    s1: "depart_key now_dt I st x = Inr st1" and r: "for_each (depart_key now_dt I) xs st1 = Inr st'"
    by (auto split: sum.splits)
  note IH = Cons.IH [OF r]
  show ?case
  proof (cases "x \<in> set I")
    case True
    then have "st1 = st" using s1 by (simp add: depart_key_skip)
    then show ?thesis using IH True
      by (auto intro!: filter_cong)
  next
    case False
    from depart_key_Inr [OF s1 False] obtain adt where
      a: "added_when st x = Some adt" "TEK_dt x = Inr (interval x * 600)"
         "events st1 = events st @ [departure now_dt adt x]"
         "revoked_keys st1 =
             (if now_dt - interval x * 600 \<le> 691200 then insert x (revoked_keys st)
              else revoked_keys st)"
         "all_keys st1 = removeAll x (all_keys st)"
         "added_when st1 = added_when st" "prev st1 = prev st" "dts st1 = dts st"
      by blast
    have ev: "events st' = events st @
           map (\<lambda>k. departure now_dt (the (added_when st k)) k) (filter (\<lambda>k. k \<notin> set I) (x # xs))"
      using IH a False by simp
    have rv: "revoked_keys st' =
           revoked_keys st \<union> {k \<in> set (x # xs). k \<notin> set I \<and> now_dt - interval k * 600 \<le> 691200}"
      using IH a False by auto
    have ak: "all_keys st' = filter (\<lambda>k. k \<in> set I \<or> k \<notin> set (x # xs)) (all_keys st)"
      using IH a False by (auto simp: removeAll_filter_not_eq intro!: filter_cong)
    have rest: "added_when st' = added_when st \<and> prev st' = prev st \<and> dts st' = dts st"
      using IH a by simp
    have df: "\<forall>k\<in>set (x # xs). k \<notin> set I \<longrightarrow>
            added_when st k \<noteq> None \<and> TEK_dt k = Inr (interval k * 600)"
      using IH a by auto
    show ?thesis using ev rv ak rest df by blast
  qed
qed

lemma depart_loop_Inl:
  assumes "for_each (depart_key now_dt I) ks st = Inl e"
    and "distinct ks" and "set ks \<subseteq> set (all_keys st)" and "set ks \<subseteq> dom (added_when st)"
  shows "e = ValueError \<and> (\<exists>k\<in>set ks. k \<notin> set I \<and> TEK_dt k = Inl ValueError)"
  using assms
proof (induction ks arbitrary: st)
  case Nil
  then show ?case by simp
next
  case (Cons x xs)
  show ?case
  proof (cases "depart_key now_dt I st x")
    case (Inl e')
    then have "e' = e" using Cons.prems(1) by simp
    have xin: "x \<in> set (all_keys st)" "added_when st x \<noteq> None"
      using Cons.prems(3,4) by auto
    have "x \<notin> set I" using Inl by (auto simp: depart_key_def split: if_splits)
    moreover have "TEK_dt x = Inl ValueError \<and> e' = ValueError"
      using Inl xin \<open>x \<notin> set I\<close>
      by (auto simp: depart_key_def Let_def split: sum.splits option.splits if_splits dest: TEK_dt_Inl)
    ultimately show ?thesis using \<open>e' = e\<close> by auto
  next
    case (Inr st1)
    then have r: "for_each (depart_key now_dt I) xs st1 = Inl e" using Cons.prems(1) by simp
    have f: "all_keys st1 = (if x \<in> set I then all_keys st else removeAll x (all_keys st))"
      "added_when st1 = added_when st"
    proof -
      show "all_keys st1 = (if x \<in> set I then all_keys st else removeAll x (all_keys st))"
      proof (cases "x \<in> set I")
        case True
        then show ?thesis using Inr by (simp add: depart_key_skip)
      next
        case False
        then show ?thesis using depart_key_Inr [OF Inr False] by auto
      qed
      show "added_when st1 = added_when st"
      proof (cases "x \<in> set I")
        case True
        then show ?thesis using Inr by (simp add: depart_key_skip)
      next
        case False
        then show ?thesis using depart_key_Inr [OF Inr False] by auto
      qed
    qed
    have "set xs \<subseteq> set (all_keys st1)" using Cons.prems(2,3) f by auto
    moreover have "set xs \<subseteq> dom (added_when st1)" using Cons.prems(4) f by auto
    ultimately show ?thesis using Cons.IH [OF r] Cons.prems(2) by auto
  qed
qed

lemma depart_loop_total:
  assumes "distinct ks" and "set ks \<subseteq> set (all_keys st)" and "set ks \<subseteq> dom (added_when st)"
    and "\<forall>k\<in>set ks. k \<notin> set I \<longrightarrow> TEK_dt k \<noteq> Inl ValueError"
  shows "\<exists>st'. for_each (depart_key now_dt I) ks st = Inr st'"
proof (cases "for_each (depart_key now_dt I) ks st")
  case (Inl e)
  from depart_loop_Inl [OF Inl assms(1,2,3)] assms(4) show ?thesis by blast
next
  case (Inr st')
  then show ?thesis by blast
qed

subsection \<open>One transition\<close>

lemma set_inter_keys: "set (inter_keys now_keys prev_keys) = set now_keys \<inter> set prev_keys"
  by (auto simp: inter_keys_def)

lemma distinct_inter_keys: "distinct (inter_keys now_keys prev_keys)"
  by (simp add: inter_keys_def)

lemma added_when_add_key_old:
  "k \<in> set (all_keys st) \<Longrightarrow> added_when (add_key pdt st x) k = added_when st k"
  by (auto simp: add_key_def)

lemma added_when_find_adds_old:
  "k \<in> set (all_keys st) \<Longrightarrow> added_when (find_adds pdt ks st) k = added_when st k"
proof (induction ks arbitrary: st)
  case Nil
  then show ?case by simp
next
  case (Cons x xs)
  have "k \<in> set (all_keys (add_key pdt st x))"
    using Cons.prems by (simp add: set_all_keys_add_key)
  from Cons.IH [OF this] show ?case
    using Cons.prems by (simp add: added_when_add_key_old)
qed

text \<open>A transition with a predecessor, taken apart into its two loops.\<close>

lemma process_archive_Some:
  assumes "process_archive st (now_dt, now_keys) = Inr st'"
    and "prev st = Some (prev_keys, prev_dt)"
  shows "\<exists>st1. find_departures now_dt (inter_keys now_keys prev_keys)
                 (find_adds prev_dt (inter_keys now_keys prev_keys)
                    (st\<lparr>dts := dts st @ [now_dt]\<rparr>)) = Inr st1 \<and>
               st' = st1\<lparr>prev := Some (now_keys, now_dt)\<rparr>"
  using assms by (auto simp: process_archive_def Let_def split: sum.splits)

lemma process_archive_None:
  assumes "prev st = None"
  shows "process_archive st (now_dt, now_keys) =
           Inr (st\<lparr>dts := dts st @ [now_dt], prev := Some (now_keys, now_dt)\<rparr>)"
  using assms by (simp add: process_archive_def Let_def)

text \<open>The effect of a transition with a predecessor on every variable.\<close>

lemma process_archive_effect:
  assumes "process_archive st (now_dt, now_keys) = Inr st'"
    and "prev st = Some (prev_keys, prev_dt)"
  defines "I \<equiv> inter_keys now_keys prev_keys"
  defines "st1 \<equiv> find_adds prev_dt I (st\<lparr>dts := dts st @ [now_dt]\<rparr>)"
  shows "events st' = events st1 @
           map (\<lambda>k. departure now_dt (the (added_when st1 k)) k)
             (filter (\<lambda>k. k \<notin> set I) (all_keys st1))"
    and "revoked_keys st' = revoked_keys st \<union>
           {k \<in> set (all_keys st). k \<notin> set I \<and> now_dt - interval k * 600 \<le> 691200}"
    and "all_keys st' = filter (\<lambda>k. k \<in> set I) (all_keys st1)"
    and "added_when st' = added_when st1"
    and "prev st' = Some (now_keys, now_dt)"
    and "dts st' = dts st @ [now_dt]"
    and "\<forall>k\<in>set (all_keys st1). k \<notin> set I \<longrightarrow>
            added_when st1 k \<noteq> None \<and> TEK_dt k = Inr (interval k * 600)"
proof -
  from process_archive_Some [OF assms(1,2)] obtain st2 where
    d: "for_each (depart_key now_dt I) (all_keys st1) st1 = Inr st2"
    and s: "st' = st2\<lparr>prev := Some (now_keys, now_dt)\<rparr>"
    unfolding I_def st1_def find_departures_def by blast
  note L = depart_loop_Inr [OF d]
  have ak: "set (all_keys st1) = set (all_keys st) \<union> set I"
    by (simp add: st1_def set_all_keys_find_adds)
  show "events st' = events st1 @
           map (\<lambda>k. departure now_dt (the (added_when st1 k)) k)
             (filter (\<lambda>k. k \<notin> set I) (all_keys st1))"
    using L s by simp
  show "revoked_keys st' = revoked_keys st \<union>
           {k \<in> set (all_keys st). k \<notin> set I \<and> now_dt - interval k * 600 \<le> 691200}"
    using L s ak by (auto simp: st1_def)
  show "all_keys st' = filter (\<lambda>k. k \<in> set I) (all_keys st1)"
    using L s by (auto intro!: filter_cong)
  show "added_when st' = added_when st1" using L s by simp
  show "prev st' = Some (now_keys, now_dt)" using s by simp
  show "dts st' = dts st @ [now_dt]" using L s by (simp add: st1_def)
  show "\<forall>k\<in>set (all_keys st1). k \<notin> set I \<longrightarrow>
            added_when st1 k \<noteq> None \<and> TEK_dt k = Inr (interval k * 600)"
    using L by blast
qed

subsection \<open>Lists\<close>

lemma filter_eq_distinct:
  "distinct xs \<Longrightarrow> k \<in> set xs \<Longrightarrow> filter (\<lambda>x. x = k) xs = [k]"
  by (induction xs) (auto simp: filter_empty_conv)

subsection \<open>Evaluation\<close>


lemmas extract_defs =
  process_archive_def find_departures_def find_adds_def inter_keys_def add_key_def
  depart_key_def TEK_dt_def utcfromtimestamp_def MIN_TIMESTAMP_def MAX_TIMESTAMP_def
  walk_def init_def last_pass_def extract_events_def Let_def

lemma state_A_reached:
  "walk [(1593734400, [key_A]), (1593820800, [key_A])] = Inr state_A"
  by (simp add: extract_defs state_A_def key_A_def)


lemmas key_defs = key_A_def key_B_def key_C_def key_P1_def key_P2_def key_P3_def

lemma state_B_reached:
  "walk [(1593734400, [key_A, key_P1]), (1593820800, [key_A, key_B, key_P2])] = Inr state_B"
  by (simp add: extract_defs state_B_def key_defs)

lemma process_state_B:
  "process_archive state_B (1593907200, [key_B, key_P3]) =
     Inr \<lparr>all_keys = [key_B], revoked_keys = {key_A},
          prev = Some ([key_B, key_P3], 1593907200),
          events = [AddedEvent key_A 1593734400 False, AddedEvent key_B 1593820800 False,
                    RevokedEvent key_A 1593907200 1593734400],
          added_when = [key_A \<mapsto> 1593734400, key_B \<mapsto> 1593820800],
          dts = [1593734400, 1593820800, 1593907200]\<rparr>"
  by (simp add: extract_defs state_B_def key_defs)

section \<open>Invariants of the walk\<close>

subsection \<open>Lifting a property of the loop bodies to the whole walk\<close>

lemma find_adds_invariant:
  assumes "P st" and "\<And>s k. P s \<Longrightarrow> P (add_key pdt s k)"
  shows "P (find_adds pdt ks st)"
  using assms(1)
proof (induction ks arbitrary: st)
  case Nil
  then show ?case by simp
next
  case (Cons k ks)
  have "P (add_key pdt st k)" using Cons.prems by (rule assms(2))
  then show ?case using Cons.IH by simp
qed

lemma process_archive_invariant:
  assumes run: "process_archive st a = Inr st'" and start: "P st"
    and upd_dts: "\<And>s x. P s \<Longrightarrow> P (s\<lparr>dts := dts s @ [x]\<rparr>)"
    and upd_prev: "\<And>s p. P s \<Longrightarrow> P (s\<lparr>prev := p\<rparr>)"
    and add: "\<And>s pdt k. P s \<Longrightarrow> P (add_key pdt s k)"
    and dep: "\<And>s now_dt I k s'. P s \<Longrightarrow> depart_key now_dt I s k = Inr s' \<Longrightarrow> P s'"
  shows "P st'"
proof -
  obtain now_dt now_keys where a: "a = (now_dt, now_keys)" by (cases a)
  have P0: "P (st\<lparr>dts := dts st @ [now_dt]\<rparr>)" using start by (rule upd_dts)
  show ?thesis
  proof (cases "prev st")
    case None
    have "st' = st\<lparr>dts := dts st @ [now_dt], prev := Some (now_keys, now_dt)\<rparr>"
      using run process_archive_None [OF None, of now_dt now_keys] unfolding a by simp
    then show ?thesis using upd_prev [OF P0] by simp
  next
    case (Some p)
    obtain prev_keys prev_dt where p: "p = (prev_keys, prev_dt)" by (cases p)
    define I where "I = inter_keys now_keys prev_keys"
    from process_archive_Some [OF run [unfolded a] Some [unfolded p]] obtain st1 where
      d: "for_each (depart_key now_dt I) 
            (all_keys (find_adds prev_dt I (st\<lparr>dts := dts st @ [now_dt]\<rparr>)))
            (find_adds prev_dt I (st\<lparr>dts := dts st @ [now_dt]\<rparr>)) = Inr st1"
      and s: "st' = st1\<lparr>prev := Some (now_keys, now_dt)\<rparr>"
      unfolding I_def find_departures_def by blast
    have P1: "P (find_adds prev_dt I (st\<lparr>dts := dts st @ [now_dt]\<rparr>))"
      using P0 add by (rule find_adds_invariant)
    have "P st1"
      using d P1
    proof (rule for_each_invariant)
      fix t x t'
      assume "P t" "depart_key now_dt I t x = Inr t'"
      then show "P t'" by (rule dep)
    qed
    then show ?thesis unfolding s by (rule upd_prev)
  qed
qed

lemma walk_invariant:
  assumes run: "walk archives = Inr st" and start: "P init"
    and upd_dts: "\<And>s x. P s \<Longrightarrow> P (s\<lparr>dts := dts s @ [x]\<rparr>)"
    and upd_prev: "\<And>s p. P s \<Longrightarrow> P (s\<lparr>prev := p\<rparr>)"
    and add: "\<And>s pdt k. P s \<Longrightarrow> P (add_key pdt s k)"
    and dep: "\<And>s now_dt I k s'. P s \<Longrightarrow> depart_key now_dt I s k = Inr s' \<Longrightarrow> P s'"
  shows "P st"
  using run [unfolded walk_def] start
proof (rule for_each_invariant)
  fix t x t'
  assume t: "P t" and x: "process_archive t x = Inr t'"
  show "P t'"
    by (rule process_archive_invariant [of t x t' P, OF x t upd_dts upd_prev add dep])
qed

lemma extract_events_invariant:
  assumes run: "extract_events archives last_keys = Inr st" and start: "P init"
    and upd_dts: "\<And>s x. P s \<Longrightarrow> P (s\<lparr>dts := dts s @ [x]\<rparr>)"
    and upd_prev: "\<And>s p. P s \<Longrightarrow> P (s\<lparr>prev := p\<rparr>)"
    and add: "\<And>s pdt k. P s \<Longrightarrow> P (add_key pdt s k)"
    and dep: "\<And>s now_dt I k s'. P s \<Longrightarrow> depart_key now_dt I s k = Inr s' \<Longrightarrow> P s'"
  shows "P st"
proof -
  from run obtain st0 where w: "walk archives = Inr st0" and l: "last_pass last_keys st0 = Inr st"
    by (auto simp: extract_events_def split: sum.splits)
  have "P st0" using w start upd_dts upd_prev add dep by (rule walk_invariant)
  moreover from l obtain prev_keys prev_dt where
    "st = find_adds prev_dt (inter_keys last_keys prev_keys) st0"
    by (auto simp: last_pass_def split: option.splits)
  ultimately show ?thesis using add by (simp add: find_adds_invariant)
qed

subsection \<open>Every live key has its add datetime\<close>

lemma for_each_Inl:
  assumes "for_each body xs s = Inl e" and "P s"
    and "\<And>t x t'. P t \<Longrightarrow> body t x = Inr t' \<Longrightarrow> P t'"
    and "\<And>t x e'. P t \<Longrightarrow> body t x = Inl e' \<Longrightarrow> Q e'"
  shows "Q e"
  using assms(1,2)
proof (induction xs arbitrary: s)
  case Nil
  then show ?case by simp
next
  case (Cons x xs)
  show ?case
  proof (cases "body s x")
    case (Inl e')
    then have "e' = e" using Cons.prems(1) by simp
    then show ?thesis using assms(4) [OF Cons.prems(2) Inl] by simp
  next
    case (Inr s1)
    then have "for_each body xs s1 = Inl e" using Cons.prems(1) by simp
    moreover have "P s1" using assms(3) [OF Cons.prems(2) Inr] .
    ultimately show ?thesis by (rule Cons.IH)
  qed
qed

lemma keys_recorded_init: "keys_recorded init"
  by (simp add: keys_recorded_def init_def)

lemma keys_recorded_dts: "keys_recorded s \<Longrightarrow> keys_recorded (s\<lparr>dts := d\<rparr>)"
  by (simp add: keys_recorded_def)

lemma keys_recorded_prev: "keys_recorded s \<Longrightarrow> keys_recorded (s\<lparr>prev := p\<rparr>)"
  by (simp add: keys_recorded_def)

lemma keys_recorded_add_key: "keys_recorded s \<Longrightarrow> keys_recorded (add_key pdt s k)"
  by (auto simp: keys_recorded_def add_key_def)

lemma keys_recorded_depart_key:
  assumes "keys_recorded s" and "depart_key now_dt I s k = Inr s'"
  shows "keys_recorded s'"
proof (cases "k \<in> set I")
  case True
  then show ?thesis using assms by (simp add: depart_key_skip)
next
  case False
  from depart_key_Inr [OF assms(2) False]
  have "all_keys s' = removeAll k (all_keys s)" "added_when s' = added_when s" by auto
  then show ?thesis using assms(1) by (auto simp: keys_recorded_def distinct_removeAll)
qed

lemma keys_recorded_find_adds: "keys_recorded s \<Longrightarrow> keys_recorded (find_adds pdt ks s)"
  by (rule find_adds_invariant) (simp_all add: keys_recorded_add_key)

lemma keys_recorded_process_archive:
  "process_archive s a = Inr s' \<Longrightarrow> keys_recorded s \<Longrightarrow> keys_recorded s'"
  by (erule process_archive_invariant)
     (simp_all add: keys_recorded_dts keys_recorded_prev keys_recorded_add_key
        keys_recorded_depart_key)

lemma keys_recorded_walk: "walk archives = Inr st \<Longrightarrow> keys_recorded st"
  by (erule walk_invariant)
     (simp_all add: keys_recorded_init keys_recorded_dts keys_recorded_prev
        keys_recorded_add_key keys_recorded_depart_key)

lemma keys_recorded_extract_events:
  "extract_events archives last_keys = Inr st \<Longrightarrow> keys_recorded st"
  by (erule extract_events_invariant)
     (simp_all add: keys_recorded_init keys_recorded_dts keys_recorded_prev
        keys_recorded_add_key keys_recorded_depart_key)

text \<open>With the invariant, the only exception of a transition is the one of \<^verbatim>\<open>TEK.dt\<close>.\<close>

lemma find_departures_Inl:
  assumes "find_departures now_dt I s = Inl e" and "keys_recorded s"
  shows "e = ValueError \<and> (\<exists>k\<in>set (all_keys s). k \<notin> set I \<and> TEK_dt k = Inl ValueError)"
proof -
  have "for_each (depart_key now_dt I) (all_keys s) s = Inl e"
    using assms(1) by (simp add: find_departures_def)
  moreover have "distinct (all_keys s)" "set (all_keys s) \<subseteq> dom (added_when s)"
    using assms(2) by (auto simp: keys_recorded_def)
  ultimately show ?thesis using depart_loop_Inl [of now_dt I "all_keys s" s e] by simp
qed

lemma process_archive_Inl:
  assumes "process_archive s a = Inl e" and "keys_recorded s"
  shows "e = ValueError"
proof -
  obtain now_dt now_keys where a: "a = (now_dt, now_keys)" by (cases a)
  from assms(1) obtain prev_keys prev_dt where
    "find_departures now_dt (inter_keys now_keys prev_keys)
       (find_adds prev_dt (inter_keys now_keys prev_keys) (s\<lparr>dts := dts s @ [now_dt]\<rparr>)) = Inl e"
    unfolding a by (auto simp: process_archive_def Let_def split: option.splits sum.splits)
  moreover have "keys_recorded
       (find_adds prev_dt (inter_keys now_keys prev_keys) (s\<lparr>dts := dts s @ [now_dt]\<rparr>))"
    using assms(2) by (simp add: keys_recorded_find_adds keys_recorded_dts)
  ultimately show ?thesis using find_departures_Inl by blast
qed

lemma walk_Inl: "walk archives = Inl e \<Longrightarrow> e = ValueError"
  unfolding walk_def
  by (erule for_each_Inl [where P = keys_recorded])
     (simp_all add: keys_recorded_init keys_recorded_process_archive process_archive_Inl)

lemma walk_Nil: "walk [] = Inr init"
  by (simp add: walk_def)

lemma prev_walk: "walk archives = Inr st \<Longrightarrow> archives \<noteq> [] \<Longrightarrow> prev st \<noteq> None"
proof (induction archives arbitrary: st rule: rev_induct)
  case Nil
  then show ?case by simp
next
  case (snoc a as)
  from snoc.prems(1) obtain s0 where "process_archive s0 a = Inr st"
    by (auto simp: walk_def for_each_append split: sum.splits)
  then show ?case
    by (cases a) (auto simp: process_archive_def Let_def split: option.splits sum.splits)
qed

lemma extract_events_Inl:
  assumes "extract_events archives last_keys = Inl e"
  shows "e = ValueError \<or> e = TypeError \<and> archives = []"
proof (cases "walk archives")
  case (Inl e')
  then show ?thesis using assms walk_Inl by (auto simp: extract_events_def)
next
  case (Inr st)
  then have "last_pass last_keys st = Inl e" using assms by (simp add: extract_events_def)
  then have "prev st = None" "e = TypeError"
    by (auto simp: last_pass_def split: option.splits)
  then show ?thesis using prev_walk [OF Inr] by auto
qed

subsection \<open>Open keys and repeated adds\<close>

lemma live_after_snoc:
  "live_after L (evs @ [e]) =
     (if is_added e then insert (key e) (live_after L evs) else live_after L evs - {key e})"
  by (induction evs arbitrary: L) simp_all

lemma no_double_add_snoc:
  "no_double_add L (evs @ [e]) \<longleftrightarrow>
     no_double_add L evs \<and> (is_added e \<longrightarrow> key e \<notin> live_after L evs)"
  by (induction evs arbitrary: L) auto

text \<open>An added event for an open key must be preceded by an event closing the key.\<close>

lemma closed_before_add:
  assumes "no_double_add L (ys @ AddedEvent k t c # zs)" and "k \<in> L"
  shows "\<exists>e\<in>set ys. key e = k \<and> \<not> is_added e"
  using assms
proof (induction ys arbitrary: L)
  case Nil
  then show ?case by simp
next
  case (Cons y ys)
  show ?case
  proof (cases "key y = k")
    case True
    then have "\<not> is_added y" using Cons.prems by auto
    then show ?thesis using True by auto
  next
    case False
    define L' where "L' = (if is_added y then insert (key y) L else L - {key y})"
    have "no_double_add L' (ys @ AddedEvent k t c # zs)"
      using Cons.prems(1) by (auto simp: L'_def split: if_splits)
    moreover have "k \<in> L'" using Cons.prems(2) False by (simp add: L'_def)
    ultimately have "\<exists>e\<in>set ys. key e = k \<and> \<not> is_added e" by (rule Cons.IH)
    then show ?thesis by auto
  qed
qed

lemma no_double_add_decomposed:
  assumes "no_double_add L (xs @ AddedEvent k t c # ys @ AddedEvent k t' c' # zs)"
  shows "\<exists>e\<in>set ys. key e = k \<and> \<not> is_added e"
  using assms
proof (induction xs arbitrary: L)
  case Nil
  then have "no_double_add (insert k L) (ys @ AddedEvent k t' c' # zs)" by simp
  then show ?case by (rule closed_before_add) simp
next
  case (Cons x xs)
  define L' where "L' = (if is_added x then insert (key x) L else L - {key x})"
  have "no_double_add L' (xs @ AddedEvent k t c # ys @ AddedEvent k t' c' # zs)"
    using Cons.prems by (auto simp: L'_def split: if_splits)
  then show ?case by (rule Cons.IH)
qed

text \<open>The invariant of the walk: the events so far have no repeated add, and the open
  keys are the keys of \<^verbatim>\<open>all_keys\<close>.\<close>

lemma live_inv_init: "no_double_add {} (events init) \<and> live_after {} (events init) = set (all_keys init)"
  by (simp add: init_def)

lemma live_inv_add_key:
  assumes "no_double_add {} (events s) \<and> live_after {} (events s) = set (all_keys s)"
  shows "no_double_add {} (events (add_key pdt s k)) \<and>
         live_after {} (events (add_key pdt s k)) = set (all_keys (add_key pdt s k))"
  using assms by (auto simp: add_key_def no_double_add_snoc live_after_snoc)

lemma live_inv_depart_key:
  assumes "no_double_add {} (events s) \<and> live_after {} (events s) = set (all_keys s)"
    and "depart_key now_dt I s k = Inr s'"
  shows "no_double_add {} (events s') \<and> live_after {} (events s') = set (all_keys s')"
proof (cases "k \<in> set I")
  case True
  then show ?thesis using assms by (simp add: depart_key_skip)
next
  case False
  from depart_key_Inr [OF assms(2) False] obtain adt where
    "events s' = events s @ [departure now_dt adt k]" "all_keys s' = removeAll k (all_keys s)"
    by auto
  then show ?thesis using assms(1) by (auto simp: no_double_add_snoc live_after_snoc)
qed




lemma live_inv_extract_events:
  assumes "extract_events archives last_keys = Inr st"
  shows "no_double_add {} (events st) \<and> live_after {} (events st) = set (all_keys st)"
proof (rule extract_events_invariant
    [where P = "\<lambda>s. no_double_add {} (events s) \<and> live_after {} (events s) = set (all_keys s)",
     OF assms])
  show "no_double_add {} (events init) \<and> live_after {} (events init) = set (all_keys init)"
    by (rule live_inv_init)
next
  fix s :: state and x :: int
  assume "no_double_add {} (events s) \<and> live_after {} (events s) = set (all_keys s)"
  then show "no_double_add {} (events (s\<lparr>dts := dts s @ [x]\<rparr>)) \<and>
     live_after {} (events (s\<lparr>dts := dts s @ [x]\<rparr>)) = set (all_keys (s\<lparr>dts := dts s @ [x]\<rparr>))"
    by simp
next
  fix s :: state and p :: "(TEK list \<times> int) option"
  assume "no_double_add {} (events s) \<and> live_after {} (events s) = set (all_keys s)"
  then show "no_double_add {} (events (s\<lparr>prev := p\<rparr>)) \<and>
     live_after {} (events (s\<lparr>prev := p\<rparr>)) = set (all_keys (s\<lparr>prev := p\<rparr>))"
    by simp
next
  fix s :: state and pdt k
  assume "no_double_add {} (events s) \<and> live_after {} (events s) = set (all_keys s)"
  then show "no_double_add {} (events (add_key pdt s k)) \<and>
     live_after {} (events (add_key pdt s k)) = set (all_keys (add_key pdt s k))"
    by (rule live_inv_add_key)
next
  fix s s' :: state and now_dt I k
  assume "no_double_add {} (events s) \<and> live_after {} (events s) = set (all_keys s)"
    and "depart_key now_dt I s k = Inr s'"
  then show "no_double_add {} (events s') \<and> live_after {} (events s') = set (all_keys s')"
    by (rule live_inv_depart_key)
qed

lemma live_inv_walk:
  assumes "walk archives = Inr st"
  shows "no_double_add {} (events st) \<and> live_after {} (events st) = set (all_keys st)"
proof (rule walk_invariant
    [where P = "\<lambda>s. no_double_add {} (events s) \<and> live_after {} (events s) = set (all_keys s)",
     OF assms])
  show "no_double_add {} (events init) \<and> live_after {} (events init) = set (all_keys init)"
    by (rule live_inv_init)
next
  fix s :: state and x :: int
  assume "no_double_add {} (events s) \<and> live_after {} (events s) = set (all_keys s)"
  then show "no_double_add {} (events (s\<lparr>dts := dts s @ [x]\<rparr>)) \<and>
     live_after {} (events (s\<lparr>dts := dts s @ [x]\<rparr>)) = set (all_keys (s\<lparr>dts := dts s @ [x]\<rparr>))"
    by simp
next
  fix s :: state and p :: "(TEK list \<times> int) option"
  assume "no_double_add {} (events s) \<and> live_after {} (events s) = set (all_keys s)"
  then show "no_double_add {} (events (s\<lparr>prev := p\<rparr>)) \<and>
     live_after {} (events (s\<lparr>prev := p\<rparr>)) = set (all_keys (s\<lparr>prev := p\<rparr>))"
    by simp
next
  fix s :: state and pdt k
  assume "no_double_add {} (events s) \<and> live_after {} (events s) = set (all_keys s)"
  then show "no_double_add {} (events (add_key pdt s k)) \<and>
     live_after {} (events (add_key pdt s k)) = set (all_keys (add_key pdt s k))"
    by (rule live_inv_add_key)
next
  fix s s' :: state and now_dt I k
  assume "no_double_add {} (events s) \<and> live_after {} (events s) = set (all_keys s)"
    and "depart_key now_dt I s k = Inr s'"
  then show "no_double_add {} (events s') \<and> live_after {} (events s') = set (all_keys s')"
    by (rule live_inv_depart_key)
qed

lemma readd_run:
  "extract_events
     [(1593734400, [key_A]), (1593820800, [key_A]), (1593907200, []),
      (1593993600, [key_A]), (1594080000, [key_A])] [] =
   Inr \<lparr>all_keys = [key_A], revoked_keys = {key_A},
        prev = Some ([key_A], 1594080000),
        events = [AddedEvent key_A 1593734400 False,
                  RevokedEvent key_A 1593907200 1593734400,
                  AddedEvent key_A 1593993600 False],
        added_when = [key_A \<mapsto> 1593993600],
        dts = [1593734400, 1593820800, 1593907200, 1593993600, 1594080000]\<rparr>"
  by (simp add: extract_defs key_defs)

lemma not_added_cases: "\<not> is_added e \<longleftrightarrow> is_revoked e \<or> is_auto_removed e"
  by (cases e) simp_all

subsection \<open>Sorting\<close>

lemma event_sort_key_Inr:
  "event_sort_key e = Inr k \<Longrightarrow> k = (dt e, type_str e, level (key e), interval (key e) * 600)"
  by (auto simp: event_sort_key_def split: sum.splits dest: TEK_dt_Inr)

lemma event_sort_key_Inl: "event_sort_key e = Inl err \<Longrightarrow> err = ValueError"
  by (auto simp: event_sort_key_def split: sum.splits dest: TEK_dt_Inl)

lemma decorate_Inr:
  "decorate evs = Inr kes \<Longrightarrow>
     kes = map (\<lambda>e. ((dt e, type_str e, level (key e), interval (key e) * 600), e)) evs"
proof (induction evs arbitrary: kes)
  case Nil
  then show ?case by simp
next
  case (Cons e es)
  from Cons.prems obtain k kes' where
    "event_sort_key e = Inr k" "decorate es = Inr kes'" "kes = (k, e) # kes'"
    by (auto split: sum.splits)
  then show ?case using Cons.IH event_sort_key_Inr by auto
qed

lemma decorate_Inl: "decorate evs = Inl err \<Longrightarrow> err = ValueError"
proof (induction evs)
  case Nil
  then show ?case by simp
next
  case (Cons e es)
  then show ?case by (auto split: sum.splits dest: event_sort_key_Inl)
qed

lemma decorate_total:
  "\<forall>e\<in>set evs. TEK_dt (key e) \<noteq> Inl ValueError \<Longrightarrow> \<exists>kes. decorate evs = Inr kes"
proof (induction evs)
  case Nil
  then show ?case by simp
next
  case (Cons e es)
  then obtain kes where "decorate es = Inr kes" by auto
  moreover obtain t where "TEK_dt (key e) = Inr t"
    using Cons.prems TEK_dt_Inl by (cases "TEK_dt (key e)") auto
  ultimately show ?case by (simp add: event_sort_key_def)
qed

lemma insort_key_decorated:
  "insort_key fst (f x, x) (map (\<lambda>e. (f e, e)) ys) = map (\<lambda>e. (f e, e)) (insort_key f x ys)"
  by (induction ys) simp_all

lemma sort_key_decorated:
  "sort_key fst (map (\<lambda>e. (f e, e)) xs) = map (\<lambda>e. (f e, e)) (sort_key f xs)"
  by (induction xs) (simp_all add: insort_key_decorated)

lemma sort_events_Inr:
  assumes "sort_events evs = Inr evs'"
  shows "evs' = sort_key (\<lambda>e. (dt e, type_str e, level (key e), interval (key e) * 600)) evs"
proof -
  from assms obtain kes where k: "decorate evs = Inr kes" and e: "evs' = map snd (sort_key fst kes)"
    by (auto simp: sort_events_def split: sum.splits)
  show ?thesis unfolding e decorate_Inr [OF k] sort_key_decorated
    by (simp add: comp_def)
qed

lemma sort_events_Inl: "sort_events evs = Inl err \<Longrightarrow> err = ValueError"
  by (auto simp: sort_events_def split: sum.splits dest: decorate_Inl)

lemma lex4_le:
  fixes a a' c c' d d' :: int and b b' :: string
  shows "(a, b, c, d) \<le> (a', b', c', d') \<longleftrightarrow>
     a < a' \<or> a = a' \<and> (b < b' \<or> b = b' \<and> (c < c' \<or> c = c' \<and> d \<le> d'))"
  unfolding less_eq_prod_simp by (metis less_le not_le order_refl)

lemma type_str_order:
  "is_added a \<Longrightarrow> is_auto_removed b \<Longrightarrow> type_str a < type_str b"
  "is_auto_removed b \<Longrightarrow> is_revoked c \<Longrightarrow> type_str b < type_str c"
  by (cases a; cases b; cases c; simp)+

lemmas sort_defs =
  sort_events_def event_sort_key_def TEK_dt_def utcfromtimestamp_def
  MIN_TIMESTAMP_def MAX_TIMESTAMP_def

lemma sort_example:
  "sort_events [AutoRemovedEvent key_B 1593907200 1593734400, AddedEvent key_A 1593907200 False] =
     Inr [AddedEvent key_A 1593907200 False, AutoRemovedEvent key_B 1593907200 1593734400]"
  by (simp add: sort_defs key_defs)

subsection \<open>Counting\<close>

lemma lookup_count_incr:
  "lookup_count (incr m k) b = lookup_count m b + (if b = k then 1 else 0)"
  by (induction m k rule: incr.induct) (auto simp: lookup_count_def)

lemma incr_not_Nil: "incr m k \<noteq> []"
  by (induction m k rule: incr.induct) auto

lemma fst_set_incr: "fst ` set (incr m k) = insert k (fst ` set m)"
  by (induction m k rule: incr.induct) auto

lemma distinct_incr: "distinct (map fst m) \<Longrightarrow> distinct (map fst (incr m k))"
proof (induction m k rule: incr.induct)
  case (1 k)
  then show ?case by simp
next
  case (2 k' c m k)
  then show ?case using fst_set_incr [of m k] by auto
qed

lemma positive_incr: "\<forall>p\<in>set m. 1 \<le> snd p \<Longrightarrow> \<forall>p\<in>set (incr m k). 1 \<le> snd p"
  by (induction m k rule: incr.induct) auto

lemma py_max_Inr: "vs \<noteq> [] \<Longrightarrow> py_max vs = Inr (Max (set vs))"
  by (cases vs) (simp_all add: py_max_def Max.set_eq_fold [symmetric])

lemma py_max_Nil: "py_max [] = Inl ValueError"
  by (simp add: py_max_def)

lemma tally_ok_Nil: "tally_ok []"
  by (simp add: tally_ok_def)

lemma tally_ok_incr: "tally_ok m \<Longrightarrow> tally_ok (incr m k)"
  unfolding tally_ok_def using distinct_incr [of m k] positive_incr [of m k] by blast

lemma count_event_snd:
  "lookup_count (snd (count_event R c e)) b =
     lookup_count (snd c) b +
       (if is_added e \<and> level (key e) = 5 \<and> key e \<notin> R \<and> interval (key e) = b then 1 else 0)"
  by (cases e) (auto simp: count_event_def lookup_count_incr)

lemma count_event_tally_ok:
  "tally_ok (snd c) \<Longrightarrow> tally_ok (snd (count_event R c e))"
  by (cases e) (auto simp: count_event_def tally_ok_incr)

lemma fold_count_event_snd:
  "lookup_count (snd (fold (\<lambda>e c. count_event R c e) es c)) b =
     lookup_count (snd c) b +
       int (length (filter (\<lambda>e. is_added e \<and> level (key e) = 5 \<and> key e \<notin> R \<and>
                                 interval (key e) = b) es))"
  by (induction es arbitrary: c) (simp_all add: count_event_snd)

lemma fold_count_event_tally_ok:
  "tally_ok (snd c) \<Longrightarrow> tally_ok (snd (fold (\<lambda>e c. count_event R c e) es c))"
  by (induction es arbitrary: c) (simp_all add: count_event_tally_ok)

lemma report_dt_Inr:
  "\<exists>line. report_dt R evs tot d =
      Inr (line, snd (fold (\<lambda>e c. count_event R c e) (filter (\<lambda>e. dt e = d) evs) ([], tot)))"
  by (simp add: report_dt_def Let_def py_max_Inr)

lemma length_filter_split:
  assumes "\<And>x. \<not> (Q x \<and> R x)"
  shows "length (filter (\<lambda>x. P x \<and> Q x) xs) + length (filter (\<lambda>x. P x \<and> R x) xs) =
         length (filter (\<lambda>x. P x \<and> (Q x \<or> R x)) xs)"
  using assms by (induction xs) auto

lemma report_dts_Inr:
  assumes "distinct ds"
  shows "\<exists>lines tot'. report_dts R evs tot ds = Inr (lines, tot') \<and>
           (tally_ok tot \<longrightarrow> tally_ok tot') \<and>
           (\<forall>b. lookup_count tot' b =
              lookup_count tot b +
                int (length (filter (\<lambda>e. (is_added e \<and> level (key e) = 5 \<and> key e \<notin> R \<and>
                                           interval (key e) = b) \<and> dt e \<in> set ds) evs)))"
  using assms
proof (induction ds arbitrary: tot)
  case Nil
  then show ?case by simp
next
  case (Cons d ds)
  define P where
    "P = (\<lambda>b e. is_added e \<and> level (key e) = 5 \<and> key e \<notin> R \<and> interval (key e) = b)"
  define tot1 where
    "tot1 = snd (fold (\<lambda>e c. count_event R c e) (filter (\<lambda>e. dt e = d) evs) ([], tot))"
  obtain line where l: "report_dt R evs tot d = Inr (line, tot1)"
    using report_dt_Inr [of R evs tot d] unfolding tot1_def by blast
  have ok1: "tally_ok tot \<longrightarrow> tally_ok tot1"
    unfolding tot1_def using fold_count_event_tally_ok [of "([], tot)"] by simp
  have c1: "lookup_count tot1 b =
      lookup_count tot b + int (length (filter (\<lambda>e. P b e \<and> dt e = d) evs))" for b
    unfolding tot1_def P_def fold_count_event_snd by (simp add: conj_commute)
  from Cons.prems have "distinct ds" by simp
  from Cons.IH [OF this, of tot1] obtain lines tot' where
    r: "report_dts R evs tot1 ds = Inr (lines, tot')"
    and ok2: "tally_ok tot1 \<longrightarrow> tally_ok tot'"
    and c2: "\<forall>b. lookup_count tot' b =
        lookup_count tot1 b + int (length (filter (\<lambda>e. P b e \<and> dt e \<in> set ds) evs))"
    unfolding P_def by blast
  have run: "report_dts R evs tot (d # ds) = Inr (line # lines, tot')"
    using l r by simp
  have disj: "\<not> (dt e = d \<and> dt e \<in> set ds)" for e :: Event
    using Cons.prems by auto
  have c: "lookup_count tot' b =
      lookup_count tot b + int (length (filter (\<lambda>e. P b e \<and> dt e \<in> set (d # ds)) evs))" for b
  proof -
    have "length (filter (\<lambda>e. P b e \<and> dt e = d) evs) +
          length (filter (\<lambda>e. P b e \<and> dt e \<in> set ds) evs) =
          length (filter (\<lambda>e. P b e \<and> (dt e = d \<or> dt e \<in> set ds)) evs)"
      using disj by (rule length_filter_split)
    then show ?thesis using c1 [of b] c2 by simp
  qed
  show ?case using run ok1 ok2 c unfolding P_def by blast
qed

subsection \<open>The datetimes of the added events, and the revoked keys\<close>

lemma image_key_snoc:
  "key ` {e \<in> set (xs @ [x]). P e} =
     (if P x then insert (key x) (key ` {e \<in> set xs. P e}) else key ` {e \<in> set xs. P e})"
  by auto

lemma revoked_inv_add_key:
  "revoked_keys s = key ` {e \<in> set (events s). is_revoked e} \<Longrightarrow>
   revoked_keys (add_key pdt s k) = key ` {e \<in> set (events (add_key pdt s k)). is_revoked e}"
  by (auto simp: add_key_def)

lemma revoked_inv_depart_key:
  assumes "revoked_keys s = key ` {e \<in> set (events s). is_revoked e}"
    and "depart_key now_dt I s k = Inr s'"
  shows "revoked_keys s' = key ` {e \<in> set (events s'). is_revoked e}"
proof (cases "k \<in> set I")
  case True
  then show ?thesis using assms by (simp add: depart_key_skip)
next
  case False
  from depart_key_Inr [OF assms(2) False] obtain adt where
    ev: "events s' = events s @ [departure now_dt adt k]" and
    rv: "revoked_keys s' = (if now_dt - interval k * 600 \<le> 691200 then insert k (revoked_keys s)
              else revoked_keys s)"
    by auto
  have "key ` {e \<in> set (events s'). is_revoked e} =
        key ` {e \<in> set (events s @ [departure now_dt adt k]). is_revoked e}"
    by (simp only: ev)
  also have "\<dots> = (if is_revoked (departure now_dt adt k)
                     then insert (key (departure now_dt adt k)) (key ` {e \<in> set (events s). is_revoked e})
                     else key ` {e \<in> set (events s). is_revoked e})"
    by (rule image_key_snoc)
  also have "\<dots> = revoked_keys s'"
    unfolding rv assms(1) by (simp add: departure_def)
  finally show ?thesis by simp
qed

lemma revoked_keys_extract_events:
  assumes "extract_events archives last_keys = Inr st"
  shows "revoked_keys st = key ` {e \<in> set (events st). is_revoked e}"
proof (rule extract_events_invariant
    [where P = "\<lambda>s. revoked_keys s = key ` {e \<in> set (events s). is_revoked e}", OF assms])
  show "revoked_keys init = key ` {e \<in> set (events init). is_revoked e}"
    by (simp add: init_def)
next
  fix s :: state and x :: int
  assume "revoked_keys s = key ` {e \<in> set (events s). is_revoked e}"
  then show "revoked_keys (s\<lparr>dts := dts s @ [x]\<rparr>) =
      key ` {e \<in> set (events (s\<lparr>dts := dts s @ [x]\<rparr>)). is_revoked e}"
    by simp
next
  fix s :: state and p :: "(TEK list \<times> int) option"
  assume "revoked_keys s = key ` {e \<in> set (events s). is_revoked e}"
  then show "revoked_keys (s\<lparr>prev := p\<rparr>) =
      key ` {e \<in> set (events (s\<lparr>prev := p\<rparr>)). is_revoked e}"
    by simp
next
  fix s :: state and pdt k
  assume "revoked_keys s = key ` {e \<in> set (events s). is_revoked e}"
  then show "revoked_keys (add_key pdt s k) =
      key ` {e \<in> set (events (add_key pdt s k)). is_revoked e}"
    by (rule revoked_inv_add_key)
next
  fix s s' :: state and now_dt I k
  assume "revoked_keys s = key ` {e \<in> set (events s). is_revoked e}"
    and "depart_key now_dt I s k = Inr s'"
  then show "revoked_keys s' = key ` {e \<in> set (events s'). is_revoked e}"
    by (rule revoked_inv_depart_key)
qed

text \<open>Every added event is dated with an archive that was read, and \<^verbatim>\<open>dts\<close> lists the
  datetimes of the archives read.\<close>

lemma walk_snoc:
  "walk (as @ [a]) = Inr st \<Longrightarrow> \<exists>s0. walk as = Inr s0 \<and> process_archive s0 a = Inr st"
  by (auto simp: walk_def for_each_append split: sum.splits)

lemma dts_process_archive:
  assumes "process_archive s a = Inr s'"
  shows "dts s' = dts s @ [fst a] \<and> prev s' = Some (snd a, fst a) \<and>
         (\<forall>e\<in>set (events s'). is_added e \<longrightarrow>
            e \<in> set (events s) \<or> (\<exists>ks. prev s = Some (ks, dt e)))"
proof -
  obtain now_dt now_keys where a: "a = (now_dt, now_keys)" by (cases a)
  show ?thesis
  proof (cases "prev s")
    case None
    have "s' = s\<lparr>dts := dts s @ [now_dt], prev := Some (now_keys, now_dt)\<rparr>"
      using assms process_archive_None [OF None, of now_dt now_keys] unfolding a by simp
    then show ?thesis by (simp add: a)
  next
    case (Some p)
    obtain prev_keys prev_dt where p: "p = (prev_keys, prev_dt)" by (cases p)
    define I where "I = inter_keys now_keys prev_keys"
    define st0 where "st0 = s\<lparr>dts := dts s @ [now_dt]\<rparr>"
    define st1 where "st1 = find_adds prev_dt I st0"
    note E = process_archive_effect [OF assms [unfolded a] Some [unfolded p],
        folded I_def, folded st0_def, folded st1_def]
    obtain adds where adds: "events st1 = events st0 @ adds"
      "\<forall>e\<in>set adds. is_added e \<and> key e \<in> set I \<and> key e \<notin> set (all_keys st0) \<and> dt e = prev_dt"
      using events_find_adds [of prev_dt I st0] unfolding st1_def by blast
    have "\<forall>e\<in>set (events s'). is_added e \<longrightarrow>
            e \<in> set (events s) \<or> (\<exists>ks. prev s = Some (ks, dt e))"
    proof (intro ballI impI)
      fix e assume e: "e \<in> set (events s')" "is_added e"
      then have "e \<in> set (events st0) \<or> e \<in> set adds"
        unfolding E(1) adds(1) by auto
      then show "e \<in> set (events s) \<or> (\<exists>ks. prev s = Some (ks, dt e))"
        using adds(2) Some p by (auto simp: st0_def)
    qed
    then show ?thesis using E(5,6) by (simp add: a)
  qed
qed

lemma dts_walk:
  assumes "walk archives = Inr st"
  shows "dts st = map fst archives \<and>
         (\<forall>ks d. prev st = Some (ks, d) \<longrightarrow> d \<in> set (dts st)) \<and>
         (\<forall>e\<in>set (events st). is_added e \<longrightarrow> dt e \<in> set (dts st))"
  using assms
proof (induction archives arbitrary: st rule: rev_induct)
  case Nil
  then have "st = init" by (simp add: walk_def)
  then show ?case by (simp add: init_def)
next
  case (snoc a as)
  from walk_snoc [OF snoc.prems] obtain s0 where
    w: "walk as = Inr s0" and p: "process_archive s0 a = Inr st" by blast
  note IH = snoc.IH [OF w]
  note D = dts_process_archive [OF p]
  have 1: "dts st = map fst (as @ [a])" using IH D by simp
  have 2: "\<forall>ks d. prev st = Some (ks, d) \<longrightarrow> d \<in> set (dts st)" using D by simp
  have 3: "\<forall>e\<in>set (events st). is_added e \<longrightarrow> dt e \<in> set (dts st)"
  proof (intro ballI impI)
    fix e assume "e \<in> set (events st)" "is_added e"
    then have "e \<in> set (events s0) \<or> (\<exists>ks. prev s0 = Some (ks, dt e))" using D by blast
    then have "dt e \<in> set (dts s0)" using IH \<open>is_added e\<close> by blast
    then show "dt e \<in> set (dts st)" using D by simp
  qed
  show ?case using 1 2 3 by blast
qed

lemma dts_extract_events:
  assumes "extract_events archives last_keys = Inr st"
  shows "dts st = map fst archives \<and>
         (\<forall>e\<in>set (events st). is_added e \<longrightarrow> dt e \<in> set (dts st))"
proof -
  from assms obtain st0 where w: "walk archives = Inr st0" and l: "last_pass last_keys st0 = Inr st"
    by (auto simp: extract_events_def split: sum.splits)
  from l obtain prev_keys prev_dt where
    p: "prev st0 = Some (prev_keys, prev_dt)"
    and s: "st = find_adds prev_dt (inter_keys last_keys prev_keys) st0"
    by (auto simp: last_pass_def split: option.splits)
  note W = dts_walk [OF w]
  obtain adds where adds: "events st = events st0 @ adds"
    "\<forall>e\<in>set adds. is_added e \<and> key e \<in> set (inter_keys last_keys prev_keys) \<and>
        key e \<notin> set (all_keys st0) \<and> dt e = prev_dt"
    using events_find_adds [of prev_dt "inter_keys last_keys prev_keys" st0] unfolding s by blast
  have d: "dts st = dts st0" unfolding s by simp
  have "prev_dt \<in> set (dts st0)" using W p by blast
  then have "\<forall>e\<in>set (events st). is_added e \<longrightarrow> dt e \<in> set (dts st)"
    unfolding d adds(1) using W adds(2) by auto
  then show ?thesis using W d by simp
qed

text \<open>The parts of a run of the whole script.\<close>

lemma main_Inr:
  assumes "main archives last_keys = Inr r"
  shows "\<exists>st lines. extract_events archives last_keys = Inr st \<and>
           sort_events (events st) = Inr (sorted_events r) \<and>
           report_dts (revoked_keys st) (sorted_events r) [] (dts st) = Inr (lines, tot_days_count r) \<and>
           py_max (map snd (tot_days_count r)) = Inr (diagnosed r)"
  using assms by (auto simp: main_def split: sum.splits prod.splits)

lemma set_sort_events: "sort_events evs = Inr evs' \<Longrightarrow> set evs' = set evs"
  by (drule sort_events_Inr) simp

lemma lookup_count_le_Max:
  assumes "tally_ok m" and "m \<noteq> []"
  shows "lookup_count m b \<le> Max (set (map snd m))"
proof (cases "map_of m b")
  case None
  obtain p where p: "p \<in> set m" using assms(2) by (cases m) auto
  then have "1 \<le> snd p" using assms(1) by (simp add: tally_ok_def)
  moreover have "snd p \<le> Max (set (map snd m))" using p by simp
  ultimately show ?thesis using None by (simp add: lookup_count_def)
next
  case (Some c)
  then have "(b, c) \<in> set m" by (rule map_of_SomeD)
  then have "c \<in> set (map snd m)" by force
  then have "c \<le> Max (set (map snd m))" by simp
  then show ?thesis using Some by (simp add: lookup_count_def)
qed

lemma lookup_count_attains_Max:
  assumes "tally_ok m" and "m \<noteq> []"
  shows "\<exists>b. lookup_count m b = Max (set (map snd m))"
proof -
  have "Max (set (map snd m)) \<in> set (map snd m)"
    using assms(2) by (intro Max_in) simp_all
  then obtain b where "(b, Max (set (map snd m))) \<in> set m" by auto
  then have "map_of m b = Some (Max (set (map snd m)))"
    using assms(1) by (simp add: tally_ok_def)
  then have "lookup_count m b = Max (set (map snd m))" by (simp add: lookup_count_def)
  then show ?thesis ..
qed

lemma py_max_Inr_iff: "py_max vs = Inr m \<Longrightarrow> vs \<noteq> [] \<and> m = Max (set vs)"
  by (cases vs) (simp_all add: py_max_def Max.set_eq_fold [symmetric])

lemmas report_defs = main_def report_dt_def count_event_def py_max_def

lemma main_example:
  "main [(1593734400, [key_A, key_C]), (1593820800, [key_A, key_C]), (1593907200, [key_A])]
        [key_A] =
   Inr \<lparr>sorted_events =
          [AddedEvent key_A 1593734400 False, AddedEvent key_C 1593734400 False,
           RevokedEvent key_C 1593907200 1593734400],
        diagnosed_per_dt = [Some 1, None, None],
        tot_days_count = [(2655360, 1)],
        diagnosed = 1\<rparr>"
  by (simp add: report_defs extract_defs sort_defs key_defs)

subsection \<open>The keys of the events of the add loop\<close>

lemma keys_of_find_adds:
  "distinct ks \<Longrightarrow>
   map key (events (find_adds pdt ks st)) =
     map key (events st) @ filter (\<lambda>k. k \<notin> set (all_keys st)) ks"
proof (induction ks arbitrary: st)
  case Nil
  then show ?case by simp
next
  case (Cons k ks)
  then have d: "distinct ks" and n: "k \<notin> set ks" by simp_all
  have f: "filter (\<lambda>x. x \<notin> set (all_keys (add_key pdt st k))) ks =
           filter (\<lambda>x. x \<notin> set (all_keys st)) ks"
    using n by (auto simp: set_all_keys_add_key intro!: filter_cong)
  have e: "map key (events (add_key pdt st k)) =
           map key (events st) @ (if k \<notin> set (all_keys st) then [k] else [])"
    by (simp add: add_key_def)
  show ?case using Cons.IH [OF d, of "add_key pdt st k"] f e by simp
qed

lemma extract_events_single:
  "extract_events [(d, ks)] last_keys =
     Inr (find_adds d (inter_keys last_keys ks)
            (init\<lparr>dts := [d], prev := Some (ks, d)\<rparr>))"
  by (simp add: extract_events_def walk_def process_archive_def last_pass_def Let_def init_def)

lemma extract_events_Nil: "extract_events [] last_keys = Inl TypeError"
  by (simp add: extract_events_def walk_def last_pass_def init_def)


subsection \<open>The flag of an added event\<close>

lemma changed_add_key:
  "k \<notin> set (all_keys st) \<Longrightarrow>
   events (add_key pdt st k) =
     events st @ [AddedEvent k pdt (\<exists>o'\<in>set (all_keys st). data o' = data k \<and> o' \<noteq> k)]"
proof -
  assume n: "k \<notin> set (all_keys st)"
  have "list_ex (\<lambda>o'. data k = data o') (all_keys st) \<longleftrightarrow>
        (\<exists>o'\<in>set (all_keys st). data o' = data k \<and> o' \<noteq> k)"
    unfolding list_ex_iff using n by metis
  then show ?thesis using n by (simp add: add_key_def)
qed

lemma main_no_red_keys:
  assumes "extract_events archives last_keys = Inr st"
    and "sort_events (events st) = Inr evs"
    and "\<forall>e\<in>set evs. \<not> (is_added e \<and> level (key e) = 5 \<and> key e \<notin> revoked_keys st)"
  shows "main archives last_keys = Inl ValueError"
proof -
  have c: "count_event (revoked_keys st) c e = c" if "e \<in> set evs" for c e
    using assms(3) that by (cases e) (auto simp: count_event_def)
  have f: "fold (\<lambda>e c. count_event (revoked_keys st) c e) es c = c" if "set es \<subseteq> set evs" for es c
    using that by (induction es arbitrary: c) (simp_all add: c)
  have d: "report_dt (revoked_keys st) evs tot d = Inr (None, tot)" for tot d
    by (simp add: report_dt_def Let_def f)
  have "report_dts (revoked_keys st) evs tot ds = Inr (map (\<lambda>_. None) ds, tot)" for tot ds
    by (induction ds arbitrary: tot) (simp_all add: d)
  then show ?thesis using assms(1,2) by (simp add: main_def py_max_def)
qed

subsection \<open>When the walk returns\<close>

text \<open>The live keys are keys of the archives read.\<close>

lemma all_keys_process_archive:
  assumes "process_archive s a = Inr s'"
  shows "set (all_keys s') \<subseteq> set (all_keys s) \<inter> {k. prev s = None} \<union> set (snd a)"
proof -
  obtain now_dt now_keys where a: "a = (now_dt, now_keys)" by (cases a)
  show ?thesis
  proof (cases "prev s")
    case None
    have "s' = s\<lparr>dts := dts s @ [now_dt], prev := Some (now_keys, now_dt)\<rparr>"
      using assms process_archive_None [OF None, of now_dt now_keys] unfolding a by simp
    then show ?thesis using None by simp
  next
    case (Some p)
    obtain prev_keys prev_dt where p: "p = (prev_keys, prev_dt)" by (cases p)
    note E = process_archive_effect [OF assms [unfolded a] Some [unfolded p]]
    have "set (all_keys s') \<subseteq> set (inter_keys now_keys prev_keys)"
      unfolding E(3) by auto
    then show ?thesis unfolding a set_inter_keys by auto
  qed
qed

lemma all_keys_walk:
  "walk archives = Inr st \<Longrightarrow> set (all_keys st) \<subseteq> (\<Union>a\<in>set archives. set (snd a))"
proof (induction archives arbitrary: st rule: rev_induct)
  case Nil
  then have "st = init" by (simp add: walk_def)
  then show ?case by (simp add: init_def)
next
  case (snoc a as)
  from walk_snoc [OF snoc.prems] obtain s0 where
    w: "walk as = Inr s0" and p: "process_archive s0 a = Inr st" by blast
  show ?case using snoc.IH [OF w] all_keys_process_archive [OF p] by auto
qed

lemma process_archive_total:
  assumes "keys_recorded s"
    and "\<forall>k\<in>set (all_keys s) \<union> set (snd a). TEK_dt k \<noteq> Inl ValueError"
  shows "\<exists>s'. process_archive s a = Inr s'"
proof (cases "process_archive s a")
  case (Inr s')
  then show ?thesis by blast
next
  case (Inl e)
  obtain now_dt now_keys where a: "a = (now_dt, now_keys)" by (cases a)
  from Inl obtain prev_keys prev_dt where
    f: "find_departures now_dt (inter_keys now_keys prev_keys)
       (find_adds prev_dt (inter_keys now_keys prev_keys) (s\<lparr>dts := dts s @ [now_dt]\<rparr>)) = Inl e"
    unfolding a by (auto simp: process_archive_def Let_def split: option.splits sum.splits)
  define s1 where
    "s1 = find_adds prev_dt (inter_keys now_keys prev_keys) (s\<lparr>dts := dts s @ [now_dt]\<rparr>)"
  have "keys_recorded s1"
    unfolding s1_def using assms(1) by (simp add: keys_recorded_find_adds keys_recorded_dts)
  from find_departures_Inl [OF f [folded s1_def] this] obtain k where
    k: "k \<in> set (all_keys s1)" "TEK_dt k = Inl ValueError" by blast
  have "set (all_keys s1) \<subseteq> set (all_keys s) \<union> set now_keys"
    unfolding s1_def by (auto simp: set_all_keys_find_adds set_inter_keys)
  then show ?thesis using k assms(2) unfolding a by auto
qed

lemma walk_total:
  assumes "\<forall>a\<in>set archives. \<forall>k\<in>set (snd a). TEK_dt k \<noteq> Inl ValueError"
  shows "\<exists>st. walk archives = Inr st"
  using assms
proof (induction archives rule: rev_induct)
  case Nil
  then show ?case by (simp add: walk_def)
next
  case (snoc a as)
  then obtain s0 where w: "walk as = Inr s0" by auto
  have "keys_recorded s0" using w by (rule keys_recorded_walk)
  moreover have "\<forall>k\<in>set (all_keys s0) \<union> set (snd a). TEK_dt k \<noteq> Inl ValueError"
    using all_keys_walk [OF w] snoc.prems by auto
  ultimately obtain st where "process_archive s0 a = Inr st"
    using process_archive_total by blast
  then have "walk (as @ [a]) = Inr st"
    using w by (simp add: walk_def for_each_append)
  then show ?case by blast
qed

lemma extract_events_total:
  assumes "\<forall>a\<in>set archives. \<forall>k\<in>set (snd a). TEK_dt k \<noteq> Inl ValueError"
    and "archives \<noteq> []"
  shows "\<exists>st. extract_events archives last_keys = Inr st"
proof -
  from walk_total [OF assms(1)] obtain s0 where w: "walk archives = Inr s0" by blast
  from prev_walk [OF w assms(2)] obtain p where "prev s0 = Some p" by auto
  then show ?thesis using w
    by (cases p) (simp add: extract_events_def last_pass_def)
qed

subsection \<open>The pass for the last archive\<close>

lemma last_pass_effect:
  assumes "last_pass last_keys st = Inr st'" and "prev st = Some (prev_keys, prev_dt)"
  shows "set (all_keys st') = set (all_keys st) \<union> (set last_keys \<inter> set prev_keys)"
    and "map key (events st') =
           map key (events st) @
             filter (\<lambda>k. k \<notin> set (all_keys st)) (inter_keys last_keys prev_keys)"
    and "revoked_keys st' = revoked_keys st"
proof -
  have s: "st' = find_adds prev_dt (inter_keys last_keys prev_keys) st"
    using assms by (simp add: last_pass_def)
  show "set (all_keys st') = set (all_keys st) \<union> (set last_keys \<inter> set prev_keys)"
    unfolding s by (simp add: set_all_keys_find_adds set_inter_keys)
  show "map key (events st') =
           map key (events st) @
             filter (\<lambda>k. k \<notin> set (all_keys st)) (inter_keys last_keys prev_keys)"
    unfolding s by (rule keys_of_find_adds [OF distinct_inter_keys])
  show "revoked_keys st' = revoked_keys st" unfolding s by simp
qed

lemma extract_events_snoc:
  assumes "extract_events (archives @ [(d, ks)]) last_keys = Inr st"
  shows "\<exists>s0. walk (archives @ [(d, ks)]) = Inr s0 \<and> prev s0 = Some (ks, d) \<and>
              last_pass last_keys s0 = Inr st"
proof -
  from assms obtain s0 where w: "walk (archives @ [(d, ks)]) = Inr s0"
    and l: "last_pass last_keys s0 = Inr st"
    by (auto simp: extract_events_def split: sum.splits)
  from walk_snoc [OF w] obtain s1 where "process_archive s1 (d, ks) = Inr s0" by blast
  from dts_process_archive [OF this] have "prev s0 = Some (ks, d)" by simp
  with w l show ?thesis by blast
qed

section \<open>Departures: revoked or automatically removed\<close>

text \<open>
  Claim C1. In a transition, every live key \<open>k\<close> that is absent from the intersection
  gets exactly one event, dated with the later archive and carrying the recorded
  \<^verbatim>\<open>added_when[k]\<close>: a \<open>RevokedEvent\<close> when the age (the later datetime minus
  \<open>interval k * 600\<close> seconds) is at most 8 days, and then the key is put into
  \<^verbatim>\<open>revoked_keys\<close>; an \<open>AutoRemovedEvent\<close> otherwise, and then \<^verbatim>\<open>revoked_keys\<close> is
  unchanged on this key. In both cases the key leaves \<^verbatim>\<open>all_keys\<close>. An age of
  exactly 691200 seconds is revoked, an age of 691201 seconds is auto-removed.
\<close>

theorem departure_classification:
  assumes "process_archive st (now_dt, now_keys) = Inr st'"
    and "prev st = Some (prev_keys, prev_dt)"
    and "distinct (all_keys st)"
    and "k \<in> set (all_keys st)"
    and "k \<notin> set (inter_keys now_keys prev_keys)"
  shows "\<exists>adt new.
           added_when st k = Some adt \<and>
           events st' = events st @ new \<and>
           k \<notin> set (all_keys st') \<and>
           (now_dt - interval k * 600 \<le> 691200 \<longrightarrow>
              filter (\<lambda>e. key e = k) new = [RevokedEvent k now_dt adt] \<and>
              k \<in> revoked_keys st') \<and>
           (691200 < now_dt - interval k * 600 \<longrightarrow>
              filter (\<lambda>e. key e = k) new = [AutoRemovedEvent k now_dt adt] \<and>
              (k \<in> revoked_keys st' \<longleftrightarrow> k \<in> revoked_keys st)) \<and>
           (now_dt - interval k * 600 = 691200 \<longrightarrow> RevokedEvent k now_dt adt \<in> set new) \<and>
           (now_dt - interval k * 600 = 691201 \<longrightarrow> AutoRemovedEvent k now_dt adt \<in> set new)"
proof -
  define I where "I = inter_keys now_keys prev_keys"
  define st0 where "st0 = st\<lparr>dts := dts st @ [now_dt]\<rparr>"
  define st1 where "st1 = find_adds prev_dt I st0"
  note E = process_archive_effect [OF assms(1,2), folded I_def, folded st0_def, folded st1_def]
  have kI: "k \<notin> set I" using assms(5) by (simp add: I_def)
  have k0: "k \<in> set (all_keys st0)" "distinct (all_keys st0)"
    using assms(3,4) by (simp_all add: st0_def)
  have k1: "k \<in> set (all_keys st1)"
    using k0 by (simp add: st1_def set_all_keys_find_adds)
  have d1: "distinct (all_keys st1)"
    using k0 by (simp add: st1_def distinct_find_adds)
  have aw: "added_when st1 k = added_when st k"
    using k0 by (simp add: st1_def added_when_find_adds_old) (simp add: st0_def)
  from E(7) k1 kI obtain adt where adt: "added_when st1 k = Some adt" by auto
  obtain adds where adds: "events st1 = events st0 @ adds"
    "\<forall>e\<in>set adds. is_added e \<and> key e \<in> set I \<and> key e \<notin> set (all_keys st0) \<and> dt e = prev_dt"
    using events_find_adds [of prev_dt I st0] unfolding st1_def by blast
  define deps where
    "deps = map (\<lambda>k. departure now_dt (the (added_when st1 k)) k)
              (filter (\<lambda>k. k \<notin> set I) (all_keys st1))"
  have ev: "events st' = events st @ (adds @ deps)"
    using E(1) adds(1) by (simp add: deps_def st0_def)
  have fa: "filter (\<lambda>e. key e = k) adds = []"
    using adds(2) kI by (auto simp: filter_empty_conv)
  have "filter (\<lambda>x. x = k) (filter (\<lambda>k. k \<notin> set I) (all_keys st1)) = [k]"
  proof -
    have "filter (\<lambda>x. x = k) (filter (\<lambda>k. k \<notin> set I) (all_keys st1)) =
          filter (\<lambda>x. x = k) (all_keys st1)"
      using kI by (auto simp: filter_filter intro!: filter_cong)
    also have "\<dots> = [k]"
      using d1 k1 by (rule filter_eq_distinct)
    finally show ?thesis .
  qed
  then have fd: "filter (\<lambda>e. key e = k) deps = [departure now_dt adt k]"
    using adt by (simp add: deps_def filter_map comp_def)
  have fk: "filter (\<lambda>e. key e = k) (adds @ deps) = [departure now_dt adt k]"
    using fa fd by simp
  have mem: "departure now_dt adt k \<in> set (adds @ deps)"
  proof -
    have "departure now_dt adt k \<in> set (filter (\<lambda>e. key e = k) (adds @ deps))"
      unfolding fk by simp
    then show ?thesis by (simp del: filter_append)
  qed
  have gone: "k \<notin> set (all_keys st')" using E(3) kI by simp
  have rv: "k \<in> revoked_keys st' \<longleftrightarrow>
              k \<in> revoked_keys st \<or> now_dt - interval k * 600 \<le> 691200"
    using E(2) assms(4) kI by auto
  have "added_when st k = Some adt" using adt aw by simp
  moreover note ev gone
  moreover have "now_dt - interval k * 600 \<le> 691200 \<longrightarrow>
              filter (\<lambda>e. key e = k) (adds @ deps) = [RevokedEvent k now_dt adt] \<and>
              k \<in> revoked_keys st'"
    using fk rv by (simp add: departure_def)
  moreover have "691200 < now_dt - interval k * 600 \<longrightarrow>
              filter (\<lambda>e. key e = k) (adds @ deps) = [AutoRemovedEvent k now_dt adt] \<and>
              (k \<in> revoked_keys st' \<longleftrightarrow> k \<in> revoked_keys st)"
    using fk rv by (simp add: departure_def)
  moreover have "now_dt - interval k * 600 = 691200 \<longrightarrow>
              RevokedEvent k now_dt adt \<in> set (adds @ deps)"
    using mem by (auto simp: departure_def)
  moreover have "now_dt - interval k * 600 = 691201 \<longrightarrow>
              AutoRemovedEvent k now_dt adt \<in> set (adds @ deps)"
    using mem by (auto simp: departure_def)
  ultimately show ?thesis by blast
qed

theorem departure_classification_witness:
  "(\<exists>st' new.
      process_archive state_A (1593907200, []) = Inr st' \<and>
      prev state_A = Some ([key_A], 1593820800) \<and>
      distinct (all_keys state_A) \<and> key_A \<in> set (all_keys state_A) \<and>
      key_A \<notin> set (inter_keys [] [key_A]) \<and>
      events st' = events state_A @ new \<and>
      filter (\<lambda>e. key e = key_A) new = [RevokedEvent key_A 1593907200 1593734400] \<and>
      key_A \<in> revoked_keys st' \<and> key_A \<notin> set (all_keys st')) \<and>
   (\<exists>st' new.
      process_archive state_A (1593907201, []) = Inr st' \<and>
      prev state_A = Some ([key_A], 1593820800) \<and>
      distinct (all_keys state_A) \<and> key_A \<in> set (all_keys state_A) \<and>
      key_A \<notin> set (inter_keys [] [key_A]) \<and>
      events st' = events state_A @ new \<and>
      filter (\<lambda>e. key e = key_A) new = [AutoRemovedEvent key_A 1593907201 1593734400] \<and>
      key_A \<notin> revoked_keys st' \<and> key_A \<notin> set (all_keys st'))"
proof -
  have h2: "prev state_A = Some ([key_A], 1593820800)" by (simp add: state_A_def)
  have h3: "distinct (all_keys state_A)" by (simp add: state_A_def)
  have h4: "key_A \<in> set (all_keys state_A)" by (simp add: state_A_def)
  have h5: "key_A \<notin> set (inter_keys [] [key_A])" by (simp add: inter_keys_def)
  have aw: "added_when state_A key_A = Some 1593734400" by (simp add: state_A_def)
  have rv: "key_A \<notin> revoked_keys state_A" by (simp add: state_A_def)
  have "\<exists>st'. process_archive state_A (1593907200, []) = Inr st'"
    by (simp add: extract_defs state_A_def key_A_def)
  then obtain s1 where p1: "process_archive state_A (1593907200, []) = Inr s1" by blast
  have age1: "(1593907200::int) - interval key_A * 600 = 691200" by (simp add: key_A_def)
  from departure_classification [OF p1 h2 h3 h4 h5] aw age1
  obtain new1 where
    "events s1 = events state_A @ new1"
    "filter (\<lambda>e. key e = key_A) new1 = [RevokedEvent key_A 1593907200 1593734400]"
    "key_A \<in> revoked_keys s1" "key_A \<notin> set (all_keys s1)"
    by auto
  with p1 h2 h3 h4 h5 have first: "\<exists>st' new.
      process_archive state_A (1593907200, []) = Inr st' \<and>
      prev state_A = Some ([key_A], 1593820800) \<and>
      distinct (all_keys state_A) \<and> key_A \<in> set (all_keys state_A) \<and>
      key_A \<notin> set (inter_keys [] [key_A]) \<and>
      events st' = events state_A @ new \<and>
      filter (\<lambda>e. key e = key_A) new = [RevokedEvent key_A 1593907200 1593734400] \<and>
      key_A \<in> revoked_keys st' \<and> key_A \<notin> set (all_keys st')"
    by blast
  have "\<exists>st'. process_archive state_A (1593907201, []) = Inr st'"
    by (simp add: extract_defs state_A_def key_A_def)
  then obtain s2 where p2: "process_archive state_A (1593907201, []) = Inr s2" by blast
  have age2: "(1593907201::int) - interval key_A * 600 = 691201" by (simp add: key_A_def)
  from departure_classification [OF p2 h2 h3 h4 h5] aw age2 rv
  obtain new2 where
    "events s2 = events state_A @ new2"
    "filter (\<lambda>e. key e = key_A) new2 = [AutoRemovedEvent key_A 1593907201 1593734400]"
    "key_A \<notin> revoked_keys s2" "key_A \<notin> set (all_keys s2)"
    by auto
  with p2 h2 h3 h4 h5 have second: "\<exists>st' new.
      process_archive state_A (1593907201, []) = Inr st' \<and>
      prev state_A = Some ([key_A], 1593820800) \<and>
      distinct (all_keys state_A) \<and> key_A \<in> set (all_keys state_A) \<and>
      key_A \<notin> set (inter_keys [] [key_A]) \<and>
      events st' = events state_A @ new \<and>
      filter (\<lambda>e. key e = key_A) new = [AutoRemovedEvent key_A 1593907201 1593734400] \<and>
      key_A \<notin> revoked_keys st' \<and> key_A \<notin> set (all_keys st')"
    by blast
  from first second show ?thesis by (rule conjI)
qed

section \<open>The intersection of two adjacent archives\<close>

text \<open>
  Claim C7. The keys used at a transition are the set intersection of the keys of the
  two archives: after a transition with a predecessor the live keys are exactly that
  intersection, and the archive just read is the predecessor of the next transition.
  The pass for the last archive uses the intersection of the last archive with the
  14-day archive in the same way: it adds exactly the keys of that intersection that
  are not live, in a run of the extractor as well, and nothing else.
  If each archive is real keys followed by padding keys, and no padding key of one
  archive occurs in the other archive, the intersection is exactly the real keys that
  both archives share. With an empty archive on either side the intersection is empty, and
  computing it raises nothing.
\<close>

theorem intersection_of_adjacent_archives:
  "set (inter_keys now_keys prev_keys) = set now_keys \<inter> set prev_keys \<and>
   (process_archive st (now_dt, now_keys) = Inr st' \<and> prev st = Some (prev_keys, prev_dt) \<longrightarrow>
      set (all_keys st') = set now_keys \<inter> set prev_keys \<and> prev st' = Some (now_keys, now_dt)) \<and>
   (last_pass last_keys st = Inr st'' \<and> prev st = Some (prev_keys, prev_dt) \<longrightarrow>
      set (all_keys st'') = set (all_keys st) \<union> (set last_keys \<inter> set prev_keys) \<and>
      map key (events st'') =
        map key (events st) @
          filter (\<lambda>k. k \<notin> set (all_keys st)) (inter_keys last_keys prev_keys)) \<and>
   (extract_events (archives @ [(d, ks)]) last_keys = Inr st_x \<longrightarrow>
      (\<exists>s0. walk (archives @ [(d, ks)]) = Inr s0 \<and>
            set (all_keys st_x) = set (all_keys s0) \<union> (set last_keys \<inter> set ks) \<and>
            map key (events st_x) =
              map key (events s0) @
                filter (\<lambda>k. k \<notin> set (all_keys s0)) (inter_keys last_keys ks))) \<and>
   (set P1 \<inter> (set R2 \<union> set P2) = {} \<and> set P2 \<inter> (set R1 \<union> set P1) = {} \<longrightarrow>
      set (inter_keys (R2 @ P2) (R1 @ P1)) = set R1 \<inter> set R2) \<and>
   inter_keys [] prev_keys = [] \<and> inter_keys now_keys [] = []"
proof -
  have a: "set (inter_keys now_keys prev_keys) = set now_keys \<inter> set prev_keys"
    by (rule set_inter_keys)
  have b: "set (all_keys st') = set now_keys \<inter> set prev_keys \<and> prev st' = Some (now_keys, now_dt)"
    if p: "process_archive st (now_dt, now_keys) = Inr st'" and q: "prev st = Some (prev_keys, prev_dt)"
  proof -
    note E = process_archive_effect [OF p q]
    have "set (all_keys st') = set (inter_keys now_keys prev_keys)"
      unfolding E(3) by (auto simp: set_all_keys_find_adds)
    then show ?thesis using E(5) a by simp
  qed
  have l: "set (all_keys st'') = set (all_keys st) \<union> (set last_keys \<inter> set prev_keys) \<and>
      map key (events st'') =
        map key (events st) @
          filter (\<lambda>k. k \<notin> set (all_keys st)) (inter_keys last_keys prev_keys)"
    if p: "last_pass last_keys st = Inr st''" and q: "prev st = Some (prev_keys, prev_dt)"
    using last_pass_effect(1,2) [OF p q] by (rule conjI)
  have x: "\<exists>s0. walk (archives @ [(d, ks)]) = Inr s0 \<and>
            set (all_keys st_x) = set (all_keys s0) \<union> (set last_keys \<inter> set ks) \<and>
            map key (events st_x) =
              map key (events s0) @
                filter (\<lambda>k. k \<notin> set (all_keys s0)) (inter_keys last_keys ks)"
    if p: "extract_events (archives @ [(d, ks)]) last_keys = Inr st_x"
  proof -
    from extract_events_snoc [OF p] obtain s0 where
      w: "walk (archives @ [(d, ks)]) = Inr s0" and q: "prev s0 = Some (ks, d)"
      and lp: "last_pass last_keys s0 = Inr st_x" by blast
    have "walk (archives @ [(d, ks)]) = Inr s0 \<and>
            set (all_keys st_x) = set (all_keys s0) \<union> (set last_keys \<inter> set ks) \<and>
            map key (events st_x) =
              map key (events s0) @
                filter (\<lambda>k. k \<notin> set (all_keys s0)) (inter_keys last_keys ks)"
      using w last_pass_effect(1,2) [OF lp q] by (intro conjI)
    then show ?thesis ..
  qed
  have c: "set (inter_keys (R2 @ P2) (R1 @ P1)) = set R1 \<inter> set R2"
    if "set P1 \<inter> (set R2 \<union> set P2) = {}" and "set P2 \<inter> (set R1 \<union> set P1) = {}"
  proof -
    have "set (inter_keys (R2 @ P2) (R1 @ P1)) = (set R2 \<union> set P2) \<inter> (set R1 \<union> set P1)"
      by (simp add: set_inter_keys)
    also have "\<dots> = set R1 \<inter> set R2" using that by blast
    finally show ?thesis .
  qed
  have e: "inter_keys [] prev_keys = []" "inter_keys now_keys [] = []"
    by (simp_all add: inter_keys_def)
  have B: "process_archive st (now_dt, now_keys) = Inr st' \<and> prev st = Some (prev_keys, prev_dt) \<longrightarrow>
      set (all_keys st') = set now_keys \<inter> set prev_keys \<and> prev st' = Some (now_keys, now_dt)"
    using b by blast
  have L: "last_pass last_keys st = Inr st'' \<and> prev st = Some (prev_keys, prev_dt) \<longrightarrow>
      set (all_keys st'') = set (all_keys st) \<union> (set last_keys \<inter> set prev_keys) \<and>
      map key (events st'') =
        map key (events st) @
          filter (\<lambda>k. k \<notin> set (all_keys st)) (inter_keys last_keys prev_keys)"
    using l by blast
  have X: "extract_events (archives @ [(d, ks)]) last_keys = Inr st_x \<longrightarrow>
      (\<exists>s0. walk (archives @ [(d, ks)]) = Inr s0 \<and>
            set (all_keys st_x) = set (all_keys s0) \<union> (set last_keys \<inter> set ks) \<and>
            map key (events st_x) =
              map key (events s0) @
                filter (\<lambda>k. k \<notin> set (all_keys s0)) (inter_keys last_keys ks))"
    using x by (rule impI)
  have C: "set P1 \<inter> (set R2 \<union> set P2) = {} \<and> set P2 \<inter> (set R1 \<union> set P1) = {} \<longrightarrow>
      set (inter_keys (R2 @ P2) (R1 @ P1)) = set R1 \<inter> set R2"
    using c by blast
  show ?thesis using a B L X C e by (intro conjI)
qed

section \<open>Adds before departures\<close>

text \<open>
  Claim C8. The events appended by one transition are first the added events, all of
  keys of the intersection, and then the departure events (revoked or auto-removed),
  all of keys outside the intersection; so no key has both an added event and a
  departure event of the same transition.
\<close>

theorem adds_before_departures:
  assumes "process_archive st (now_dt, now_keys) = Inr st'"
    and "prev st = Some (prev_keys, prev_dt)"
  shows "\<exists>adds deps.
           events st' = events st @ adds @ deps \<and>
           (\<forall>e\<in>set adds. is_added e \<and> key e \<in> set (inter_keys now_keys prev_keys)) \<and>
           (\<forall>e\<in>set deps. (is_revoked e \<or> is_auto_removed e) \<and>
                           key e \<notin> set (inter_keys now_keys prev_keys)) \<and>
           key ` set adds \<inter> key ` set deps = {}"
proof -
  define I where "I = inter_keys now_keys prev_keys"
  define st0 where "st0 = st\<lparr>dts := dts st @ [now_dt]\<rparr>"
  define st1 where "st1 = find_adds prev_dt I st0"
  note E = process_archive_effect [OF assms(1,2), folded I_def, folded st0_def, folded st1_def]
  obtain adds where adds: "events st1 = events st0 @ adds"
    "\<forall>e\<in>set adds. is_added e \<and> key e \<in> set I \<and> key e \<notin> set (all_keys st0) \<and> dt e = prev_dt"
    using events_find_adds [of prev_dt I st0] unfolding st1_def by blast
  define deps where
    "deps = map (\<lambda>k. departure now_dt (the (added_when st1 k)) k)
              (filter (\<lambda>k. k \<notin> set I) (all_keys st1))"
  have ev: "events st' = events st @ adds @ deps"
    using E(1) adds(1) by (simp add: deps_def st0_def)
  have A: "\<forall>e\<in>set adds. is_added e \<and> key e \<in> set I" using adds(2) by blast
  have dep_class: "is_revoked (departure t a k) \<or> is_auto_removed (departure t a k)" for t a k
    by (simp add: departure_def)
  have D: "\<forall>e\<in>set deps. (is_revoked e \<or> is_auto_removed e) \<and> key e \<notin> set I"
    unfolding deps_def using dep_class by auto
  have X: "key ` set adds \<inter> key ` set deps = {}"
  proof (rule ccontr)
    assume "key ` set adds \<inter> key ` set deps \<noteq> {}"
    then obtain a d where "a \<in> set adds" "d \<in> set deps" "key a = key d" by auto
    then show False using A D by metis
  qed
  have "events st' = events st @ adds @ deps \<and>
           (\<forall>e\<in>set adds. is_added e \<and> key e \<in> set I) \<and>
           (\<forall>e\<in>set deps. (is_revoked e \<or> is_auto_removed e) \<and> key e \<notin> set I) \<and>
           key ` set adds \<inter> key ` set deps = {}"
    using ev A D X by (intro conjI)
  then show ?thesis unfolding I_def by (intro exI)
qed

theorem intersection_of_adjacent_archives_witness:
  "(\<exists>st'. process_archive state_B (1593907200, [key_B, key_P3]) = Inr st' \<and>
         prev state_B = Some ([key_A, key_B, key_P2], 1593820800) \<and>
         set (all_keys st') = {key_B} \<and> prev st' = Some ([key_B, key_P3], 1593907200)) \<and>
   (\<exists>st''. last_pass [key_B, key_C] state_B = Inr st'' \<and>
         prev state_B = Some ([key_A, key_B, key_P2], 1593820800) \<and>
         set (all_keys st'') = {key_A, key_B} \<and>
         map key (events st'') = [key_A, key_B]) \<and>
   (\<exists>st_x. extract_events
            ([(1593734400, [key_A, key_P1])] @ [(1593820800, [key_A, key_B, key_P2])])
            [key_B, key_C] = Inr st_x \<and>
         walk ([(1593734400, [key_A, key_P1])] @ [(1593820800, [key_A, key_B, key_P2])]) =
           Inr state_B \<and>
         set (all_keys st_x) = {key_A, key_B} \<and>
         map key (events st_x) = [key_A, key_B]) \<and>
   set [key_P2] \<inter> (set [key_B] \<union> set [key_P3]) = {} \<and>
   set [key_P3] \<inter> (set [key_A, key_B] \<union> set [key_P2]) = {} \<and>
   set (inter_keys ([key_B] @ [key_P3]) ([key_A, key_B] @ [key_P2])) = {key_B}"
proof -
  let ?A = "[(1593734400::int, [key_A, key_P1])]"
  obtain s1 where p: "process_archive state_B (1593907200, [key_B, key_P3]) = Inr s1"
    using process_state_B by blast
  have q: "prev state_B = Some ([key_A, key_B, key_P2], 1593820800)"
    by (simp add: state_B_def)
  have "\<exists>s. last_pass [key_B, key_C] state_B = Inr s"
    by (simp add: last_pass_def state_B_def)
  then obtain s2 where lp: "last_pass [key_B, key_C] state_B = Inr s2" by blast
  have w: "walk (?A @ [(1593820800, [key_A, key_B, key_P2])]) = Inr state_B"
    using state_B_reached by simp
  have "\<exists>s. extract_events (?A @ [(1593820800, [key_A, key_B, key_P2])]) [key_B, key_C] = Inr s"
    unfolding extract_events_def w using lp by simp
  then obtain s3 where
    x: "extract_events (?A @ [(1593820800, [key_A, key_B, key_P2])]) [key_B, key_C] = Inr s3"
    by blast
  have d1: "set [key_P2] \<inter> (set [key_B] \<union> set [key_P3]) = {}"
    by (simp add: key_defs)
  have d2: "set [key_P3] \<inter> (set [key_A, key_B] \<union> set [key_P2]) = {}"
    by (simp add: key_defs)
  have ik: "inter_keys [key_B, key_C] [key_A, key_B, key_P2] = [key_B]"
    by (simp add: inter_keys_def key_defs)
  have ak: "all_keys state_B = [key_A]" "map key (events state_B) = [key_A]"
    by (simp_all add: state_B_def)
  have nb: "key_B \<noteq> key_A" by (simp add: key_defs)
  note T = intersection_of_adjacent_archives
    [where now_keys = "[key_B, key_P3]" and prev_keys = "[key_A, key_B, key_P2]"
       and st = state_B and now_dt = 1593907200 and st' = s1 and prev_dt = 1593820800
       and last_keys = "[key_B, key_C]" and st'' = s2
       and archives = ?A and d = 1593820800 and ks = "[key_A, key_B, key_P2]" and st_x = s3
       and ?P1.0 = "[key_P2]" and ?R1.0 = "[key_A, key_B]"
       and ?P2.0 = "[key_P3]" and ?R2.0 = "[key_B]"]
  from T p q have "set (all_keys s1) = set [key_B, key_P3] \<inter> set [key_A, key_B, key_P2]"
    and n: "prev s1 = Some ([key_B, key_P3], 1593907200)"
    by blast+
  then have l: "set (all_keys s1) = {key_B}" by (simp add: key_defs)
  from T lp q have
    "set (all_keys s2) = set (all_keys state_B) \<union> (set [key_B, key_C] \<inter> set [key_A, key_B, key_P2])"
    and "map key (events s2) = map key (events state_B) @
          filter (\<lambda>k. k \<notin> set (all_keys state_B)) (inter_keys [key_B, key_C] [key_A, key_B, key_P2])"
    by blast+
  then have l2: "set (all_keys s2) = {key_A, key_B}" and e2: "map key (events s2) = [key_A, key_B]"
    using nb unfolding ik ak by (auto simp: key_defs)
  from T x obtain s0 where
    w0: "walk (?A @ [(1593820800, [key_A, key_B, key_P2])]) = Inr s0"
    and a3: "set (all_keys s3) = set (all_keys s0) \<union> (set [key_B, key_C] \<inter> set [key_A, key_B, key_P2])"
    and e3: "map key (events s3) = map key (events s0) @
          filter (\<lambda>k. k \<notin> set (all_keys s0)) (inter_keys [key_B, key_C] [key_A, key_B, key_P2])"
    by blast
  have s0: "s0 = state_B" using w w0 by simp
  have l3: "set (all_keys s3) = {key_A, key_B}" and e3': "map key (events s3) = [key_A, key_B]"
    using a3 e3 nb unfolding s0 ik ak by (auto simp: key_defs)
  from T d1 d2 have "set (inter_keys ([key_B] @ [key_P3]) ([key_A, key_B] @ [key_P2])) =
      set [key_A, key_B] \<inter> set [key_B]"
    by blast
  then have i: "set (inter_keys ([key_B] @ [key_P3]) ([key_A, key_B] @ [key_P2])) = {key_B}"
    by (simp add: key_defs)
  have first: "\<exists>st'. process_archive state_B (1593907200, [key_B, key_P3]) = Inr st' \<and>
         prev state_B = Some ([key_A, key_B, key_P2], 1593820800) \<and>
         set (all_keys st') = {key_B} \<and> prev st' = Some ([key_B, key_P3], 1593907200)"
    using p q l n by (intro exI [of _ s1] conjI)
  have second: "\<exists>st''. last_pass [key_B, key_C] state_B = Inr st'' \<and>
         prev state_B = Some ([key_A, key_B, key_P2], 1593820800) \<and>
         set (all_keys st'') = {key_A, key_B} \<and>
         map key (events st'') = [key_A, key_B]"
    using lp q l2 e2 by (intro exI [of _ s2] conjI)
  have third: "\<exists>st_x. extract_events
            (?A @ [(1593820800, [key_A, key_B, key_P2])])
            [key_B, key_C] = Inr st_x \<and>
         walk (?A @ [(1593820800, [key_A, key_B, key_P2])]) =
           Inr state_B \<and>
         set (all_keys st_x) = {key_A, key_B} \<and>
         map key (events st_x) = [key_A, key_B]"
    using x w l3 e3' by (intro exI [of _ s3] conjI)
  from first second third d1 d2 i show ?thesis by (intro conjI)
qed

theorem adds_before_departures_witness:
  "\<exists>st' adds deps.
     process_archive state_B (1593907200, [key_B, key_P3]) = Inr st' \<and>
     prev state_B = Some ([key_A, key_B, key_P2], 1593820800) \<and>
     events st' = events state_B @ adds @ deps \<and>
     adds = [AddedEvent key_B 1593820800 False] \<and>
     deps = [RevokedEvent key_A 1593907200 1593734400] \<and>
     key ` set adds \<inter> key ` set deps = {}"
proof -
  let ?s1 = "\<lparr>all_keys = [key_B], revoked_keys = {key_A},
          prev = Some ([key_B, key_P3], 1593907200),
          events = [AddedEvent key_A 1593734400 False, AddedEvent key_B 1593820800 False,
                    RevokedEvent key_A 1593907200 1593734400],
          added_when = [key_A \<mapsto> 1593734400, key_B \<mapsto> 1593820800],
          dts = [1593734400, 1593820800, 1593907200]\<rparr>"
  have p: "process_archive state_B (1593907200, [key_B, key_P3]) = Inr ?s1"
    by (rule process_state_B)
  have q: "prev state_B = Some ([key_A, key_B, key_P2], 1593820800)"
    by (simp add: state_B_def)
  from adds_before_departures [OF p q] obtain adds deps where
    e: "events ?s1 = events state_B @ adds @ deps"
    and a: "\<forall>e\<in>set adds. is_added e \<and> key e \<in> set (inter_keys [key_B, key_P3] [key_A, key_B, key_P2])"
    and d: "\<forall>e\<in>set deps. (is_revoked e \<or> is_auto_removed e) \<and>
                           key e \<notin> set (inter_keys [key_B, key_P3] [key_A, key_B, key_P2])"
    and x: "key ` set adds \<inter> key ` set deps = {}"
    by blast
  from e have ad: "adds @ deps = [AddedEvent key_B 1593820800 False,
                    RevokedEvent key_A 1593907200 1593734400]"
    by (simp add: state_B_def)
  have "adds = [AddedEvent key_B 1593820800 False] \<and>
        deps = [RevokedEvent key_A 1593907200 1593734400]"
  proof (cases adds)
    case Nil
    then show ?thesis using ad d by auto
  next
    case (Cons a1 as)
    note c1 = Cons
    show ?thesis
    proof (cases as)
      case Nil
      then show ?thesis using ad c1 by simp
    next
      case (Cons a2 as')
      then show ?thesis using ad c1 a by auto
    qed
  qed
  with p q e x show ?thesis by blast
qed

section \<open>The add datetime of a departing key is always recorded\<close>

text \<open>
  Claim C10. At every point of the walk every key of \<^verbatim>\<open>all_keys\<close> has an entry in
  \<^verbatim>\<open>added_when\<close>: this holds at the start, each step of the add loop and each step
  of the departure loop keeps it, so it holds after any number of archives and after
  the pass for the last archive. Hence the lookup \<^verbatim>\<open>added_when[key]\<close> of the
  departure loop never raises \<^verbatim>\<open>KeyError\<close>.
\<close>

theorem added_when_recorded_for_live_keys:
  "keys_recorded init \<and>
   (keys_recorded st \<longrightarrow> keys_recorded (add_key prev_dt st k)) \<and>
   (keys_recorded st \<and> depart_key now_dt I st k = Inr st' \<longrightarrow> keys_recorded st') \<and>
   (keys_recorded st \<and> k \<in> set (all_keys st) \<longrightarrow> depart_key now_dt I st k \<noteq> Inl KeyError) \<and>
   (walk archives = Inr st \<longrightarrow> (\<forall>k\<in>set (all_keys st). added_when st k \<noteq> None)) \<and>
   (extract_events archives last_keys = Inr st \<longrightarrow>
      (\<forall>k\<in>set (all_keys st). added_when st k \<noteq> None)) \<and>
   walk archives \<noteq> Inl KeyError \<and>
   extract_events archives last_keys \<noteq> Inl KeyError"
proof -
  have step: "depart_key now_dt I st k \<noteq> Inl KeyError"
    if "keys_recorded st" and "k \<in> set (all_keys st)"
    using that
    by (auto simp: depart_key_def keys_recorded_def Let_def
             split: sum.splits option.splits dest: TEK_dt_Inl)
  have w: "\<forall>k\<in>set (all_keys st). added_when st k \<noteq> None" if "walk archives = Inr st"
    using keys_recorded_walk [OF that] by (simp add: keys_recorded_def)
  have x: "\<forall>k\<in>set (all_keys st). added_when st k \<noteq> None"
    if "extract_events archives last_keys = Inr st"
    using keys_recorded_extract_events [OF that] by (simp add: keys_recorded_def)
  have nw: "walk archives \<noteq> Inl KeyError" using walk_Inl by fastforce
  have nx: "extract_events archives last_keys \<noteq> Inl KeyError"
    using extract_events_Inl by fastforce
  show ?thesis
    apply (intro conjI impI)
           apply (rule keys_recorded_init)
          apply (erule keys_recorded_add_key)
         apply (erule conjE, erule (1) keys_recorded_depart_key)
        apply (erule conjE, erule (1) step)
       apply (erule w)
      apply (erule x)
     apply (rule nw)
    apply (rule nx)
    done
qed

theorem added_when_recorded_for_live_keys_witness:
  "keys_recorded state_B \<and> keys_recorded (add_key 1593820800 state_B key_B) \<and>
   (\<exists>st'. depart_key 1593907200 [key_B] state_B key_A = Inr st' \<and> keys_recorded st') \<and>
   key_A \<in> set (all_keys state_B) \<and>
   depart_key 1593907200 [key_B] state_B key_A \<noteq> Inl KeyError \<and>
   walk [(1593734400, [key_A, key_P1]), (1593820800, [key_A, key_B, key_P2])] = Inr state_B \<and>
   added_when state_B key_A \<noteq> None \<and>
   (\<exists>st. extract_events [(1593734400, [key_A, key_P1]), (1593820800, [key_A, key_B, key_P2])]
           [key_A, key_B] = Inr st \<and>
         (\<forall>k\<in>set (all_keys st). added_when st k \<noteq> None))"
proof -
  note T = added_when_recorded_for_live_keys
    [where st = state_B and archives = "[(1593734400, [key_A, key_P1]), (1593820800, [key_A, key_B, key_P2])]"
       and k = key_A and now_dt = 1593907200 and I = "[key_B]"]
  have r: "keys_recorded state_B" by (simp add: keys_recorded_def state_B_def)
  have m: "key_A \<in> set (all_keys state_B)" by (simp add: state_B_def)
  have a: "keys_recorded (add_key 1593820800 state_B key_B)"
    using added_when_recorded_for_live_keys [of state_B 1593820800 key_B] r by blast
  have "\<exists>st'. depart_key 1593907200 [key_B] state_B key_A = Inr st'"
    by (simp add: extract_defs state_B_def key_defs)
  then obtain s1 where d: "depart_key 1593907200 [key_B] state_B key_A = Inr s1" by blast
  have d1: "keys_recorded s1" using T [where st' = s1] r d by blast
  have d2: "depart_key 1593907200 [key_B] state_B key_A \<noteq> Inl KeyError"
    using T r m by blast
  have w: "walk [(1593734400, [key_A, key_P1]), (1593820800, [key_A, key_B, key_P2])] = Inr state_B"
    by (rule state_B_reached)
  have "\<forall>k\<in>set (all_keys state_B). added_when state_B k \<noteq> None"
    using T w by blast
  then have w1: "added_when state_B key_A \<noteq> None" using m by blast
  have "\<exists>st. extract_events [(1593734400, [key_A, key_P1]), (1593820800, [key_A, key_B, key_P2])]
           [key_A, key_B] = Inr st"
    by (simp add: extract_events_def state_B_reached) (simp add: extract_defs state_B_def key_defs)
  then obtain s2 where x: "extract_events
      [(1593734400, [key_A, key_P1]), (1593820800, [key_A, key_B, key_P2])] [key_A, key_B] = Inr s2"
    by blast
  have x1: "\<forall>k\<in>set (all_keys s2). added_when s2 k \<noteq> None"
    using added_when_recorded_for_live_keys
      [where st = s2 and last_keys = "[key_A, key_B]"
         and archives = "[(1593734400, [key_A, key_P1]), (1593820800, [key_A, key_B, key_P2])]"] x
    by blast
  from r a d d1 m d2 w w1 x x1 show ?thesis by blast
qed

section \<open>At most one live interval at a time\<close>

text \<open>
  Claim C6. In the events in the order in which the extractor appends them, after any
  number of archives and after the pass for the last archive: between two added
  events of the same key there is a revoked or auto-removed event of that key.
\<close>

theorem no_second_add_without_removal:
  assumes "walk archives = Inr st \<or> extract_events archives last_keys = Inr st"
    and "events st = xs @ AddedEvent k t c # ys @ AddedEvent k t' c' # zs"
  shows "\<exists>e\<in>set ys. key e = k \<and> (is_revoked e \<or> is_auto_removed e)"
proof -
  have "no_double_add {} (events st)"
    using assms(1) live_inv_walk live_inv_extract_events by blast
  then have "no_double_add {} (xs @ AddedEvent k t c # ys @ AddedEvent k t' c' # zs)"
    using assms(2) by simp
  then obtain e where e: "e \<in> set ys" "key e = k" "\<not> is_added e"
    using no_double_add_decomposed by blast
  then have "is_revoked e \<or> is_auto_removed e" by (simp add: not_added_cases)
  with e show ?thesis by blast
qed

theorem no_second_add_without_removal_witness:
  "\<exists>st. extract_events
          [(1593734400, [key_A]), (1593820800, [key_A]), (1593907200, []),
           (1593993600, [key_A]), (1594080000, [key_A])] [] = Inr st \<and>
        events st = [] @ AddedEvent key_A 1593734400 False #
                      [RevokedEvent key_A 1593907200 1593734400] @
                      AddedEvent key_A 1593993600 False # [] \<and>
        (\<exists>e\<in>set [RevokedEvent key_A 1593907200 1593734400].
            key e = key_A \<and> (is_revoked e \<or> is_auto_removed e))"
proof -
  obtain st where r: "extract_events
          [(1593734400, [key_A]), (1593820800, [key_A]), (1593907200, []),
           (1593993600, [key_A]), (1594080000, [key_A])] [] = Inr st"
    and e: "events st = [] @ AddedEvent key_A 1593734400 False #
                      [RevokedEvent key_A 1593907200 1593734400] @
                      AddedEvent key_A 1593993600 False # []"
    using readd_run by simp
  from r have "walk [(1593734400, [key_A]), (1593820800, [key_A]), (1593907200, []),
           (1593993600, [key_A]), (1594080000, [key_A])] = Inr st \<or>
      extract_events
          [(1593734400, [key_A]), (1593820800, [key_A]), (1593907200, []),
           (1593993600, [key_A]), (1594080000, [key_A])] [] = Inr st"
    by (rule disjI2)
  from no_second_add_without_removal [OF this e]
  have "\<exists>e\<in>set [RevokedEvent key_A 1593907200 1593734400].
            key e = key_A \<and> (is_revoked e \<or> is_auto_removed e)" .
  with r e show ?thesis by blast
qed

section \<open>The order of the final event list\<close>

text \<open>
  Claim C9. The sorted event list is ordered by the tuple (event datetime, name of
  the event class as text, level of the key, start of the key), compared
  lexicographically: first by datetime, among equal datetimes by the class name,
  then by level, then by start. The sort keeps the events (each as often as
  before) and is stable. The class name of an added event is smaller than that of an
  auto-removed event, so of two events with the same datetime the added one comes
  before the auto-removed one.
\<close>

theorem sorted_event_order:
  assumes "sort_events evs = Inr evs'"
  shows "sorted (map (\<lambda>e. (dt e, type_str e, level (key e), interval (key e) * 600)) evs') \<and>
         (\<forall>i j. i < j \<and> j < length evs' \<longrightarrow>
            dt (evs' ! i) < dt (evs' ! j) \<or>
            dt (evs' ! i) = dt (evs' ! j) \<and>
              (type_str (evs' ! i) < type_str (evs' ! j) \<or>
               type_str (evs' ! i) = type_str (evs' ! j) \<and>
                 (level (key (evs' ! i)) < level (key (evs' ! j)) \<or>
                  level (key (evs' ! i)) = level (key (evs' ! j)) \<and>
                    interval (key (evs' ! i)) * 600 \<le> interval (key (evs' ! j)) * 600))) \<and>
         (\<forall>e. count_list evs' e = count_list evs e) \<and>
         (\<forall>k. filter (\<lambda>e. (dt e, type_str e, level (key e), interval (key e) * 600) = k) evs' =
              filter (\<lambda>e. (dt e, type_str e, level (key e), interval (key e) * 600) = k) evs) \<and>
         (\<forall>a b. is_added a \<and> is_auto_removed b \<longrightarrow> type_str a < type_str b) \<and>
         (\<forall>i j. i < length evs' \<and> j < length evs' \<and> is_added (evs' ! i) \<and>
                is_auto_removed (evs' ! j) \<and> dt (evs' ! i) = dt (evs' ! j) \<longrightarrow> i < j)"
proof -
  define sk where "sk = (\<lambda>e. (dt e, type_str e, level (key e), interval (key e) * 600))"
  have s: "evs' = sort_key sk evs" using sort_events_Inr [OF assms] by (simp add: sk_def)
  have srt: "sorted (map sk evs')" unfolding s by simp
  have le: "sk (evs' ! i) \<le> sk (evs' ! j)" if "i < j" "j < length evs'" for i j
    using srt that by (simp add: sorted_iff_nth_mono_less)
  have p2: "\<forall>i j. i < j \<and> j < length evs' \<longrightarrow>
            dt (evs' ! i) < dt (evs' ! j) \<or>
            dt (evs' ! i) = dt (evs' ! j) \<and>
              (type_str (evs' ! i) < type_str (evs' ! j) \<or>
               type_str (evs' ! i) = type_str (evs' ! j) \<and>
                 (level (key (evs' ! i)) < level (key (evs' ! j)) \<or>
                  level (key (evs' ! i)) = level (key (evs' ! j)) \<and>
                    interval (key (evs' ! i)) * 600 \<le> interval (key (evs' ! j)) * 600))"
  proof (intro allI impI)
    fix i j assume "i < j \<and> j < length evs'"
    then have "sk (evs' ! i) \<le> sk (evs' ! j)" using le by blast
    then show "dt (evs' ! i) < dt (evs' ! j) \<or>
            dt (evs' ! i) = dt (evs' ! j) \<and>
              (type_str (evs' ! i) < type_str (evs' ! j) \<or>
               type_str (evs' ! i) = type_str (evs' ! j) \<and>
                 (level (key (evs' ! i)) < level (key (evs' ! j)) \<or>
                  level (key (evs' ! i)) = level (key (evs' ! j)) \<and>
                    interval (key (evs' ! i)) * 600 \<le> interval (key (evs' ! j)) * 600))"
      unfolding sk_def lex4_le by blast
  qed
  have p3: "\<forall>e. count_list evs' e = count_list evs e"
  proof
    fix e
    have "filter (\<lambda>y. sk y = sk e) evs' = filter (\<lambda>y. sk y = sk e) evs"
      unfolding s by (rule sort_key_stable)
    then have "filter (\<lambda>y. y = e) (filter (\<lambda>y. sk y = sk e) evs') =
               filter (\<lambda>y. y = e) (filter (\<lambda>y. sk y = sk e) evs)" by simp
    moreover have "filter (\<lambda>y. y = e) (filter (\<lambda>y. sk y = sk e) xs) = filter (\<lambda>y. y = e) xs" for xs
      by (auto simp: filter_filter intro!: filter_cong)
    ultimately have f: "filter (\<lambda>y. y = e) evs' = filter (\<lambda>y. y = e) evs" by simp
    have c: "count_list xs e = length (filter (\<lambda>y. y = e) xs)" for xs
      by (induction xs) auto
    show "count_list evs' e = count_list evs e"
      unfolding c f by (rule refl)
  qed
  have p4: "\<forall>k. filter (\<lambda>e. sk e = k) evs' = filter (\<lambda>e. sk e = k) evs"
    unfolding s by (simp add: sort_key_stable)
  have p5: "\<forall>a b. is_added a \<and> is_auto_removed b \<longrightarrow> type_str a < type_str b"
    using type_str_order(1) by blast
  have p6: "\<forall>i j. i < length evs' \<and> j < length evs' \<and> is_added (evs' ! i) \<and>
                is_auto_removed (evs' ! j) \<and> dt (evs' ! i) = dt (evs' ! j) \<longrightarrow> i < j"
  proof (intro allI impI)
    fix i j
    assume a: "i < length evs' \<and> j < length evs' \<and> is_added (evs' ! i) \<and>
                is_auto_removed (evs' ! j) \<and> dt (evs' ! i) = dt (evs' ! j)"
    then have lt: "type_str (evs' ! i) < type_str (evs' ! j)" using type_str_order(1) by blast
    show "i < j"
    proof (rule ccontr)
      assume "\<not> i < j"
      moreover have "i \<noteq> j" using lt by auto
      ultimately have "j < i" by simp
      then have "sk (evs' ! j) \<le> sk (evs' ! i)" using le a by blast
      then have "type_str (evs' ! j) \<le> type_str (evs' ! i)"
        using a unfolding sk_def lex4_le by auto
      then show False using lt by simp
    qed
  qed
  show ?thesis using srt p2 p3 p4 p5 p6 unfolding sk_def by (intro conjI)
qed

theorem sorted_event_order_witness:
  "sort_events [AutoRemovedEvent key_B 1593907200 1593734400, AddedEvent key_A 1593907200 False] =
     Inr [AddedEvent key_A 1593907200 False, AutoRemovedEvent key_B 1593907200 1593734400] \<and>
   (0::nat) < 1 \<and>
   1 < length [AddedEvent key_A 1593907200 False, AutoRemovedEvent key_B 1593907200 1593734400] \<and>
   is_added (AddedEvent key_A 1593907200 False) \<and>
   is_auto_removed (AutoRemovedEvent key_B 1593907200 1593734400) \<and>
   type_str (AddedEvent key_A 1593907200 False) <
     type_str (AutoRemovedEvent key_B 1593907200 1593734400) \<and>
   sorted (map (\<lambda>e. (dt e, type_str e, level (key e), interval (key e) * 600))
     [AddedEvent key_A 1593907200 False, AutoRemovedEvent key_B 1593907200 1593734400])"
proof -
  note T = sorted_event_order [OF sort_example]
  have a: "is_added (AddedEvent key_A 1593907200 False)" by simp
  have b: "is_auto_removed (AutoRemovedEvent key_B 1593907200 1593734400)" by simp
  from T a b have "type_str (AddedEvent key_A 1593907200 False) <
     type_str (AutoRemovedEvent key_B 1593907200 1593734400)" by blast
  moreover from T have "sorted (map (\<lambda>e. (dt e, type_str e, level (key e), interval (key e) * 600))
     [AddedEvent key_A 1593907200 False, AutoRemovedEvent key_B 1593907200 1593734400])"
    by blast
  ultimately show ?thesis using sort_example a b by simp
qed

section \<open>The count of unrevoked keys of level 5\<close>

text \<open>
  Claim C3, as the code has it. When the script runs to its end on archives with
  pairwise distinct datetimes, \<^verbatim>\<open>tot_days_count\<close> holds for every start interval the
  number of added events of the run whose key has that start interval, has level 5
  and has no revoked event in the run; the last line printed is the maximum of these
  counts. For three added events of one start interval, of a key of level 5 that is
  not revoked, a key of level 5 that is revoked and a key of level 2 that is not
  revoked, the count is 1. The loop over \<^verbatim>\<open>dts\<close> counts the events of a datetime once
  for every archive of that datetime, so without distinct datetimes the count can
  exceed the number of events, as the run with two archives of one datetime below
  shows.
\<close>

theorem unrevoked_red_keys_count:
  "(main archives last_keys = Inr r \<and> distinct (map fst archives) \<longrightarrow>
      (\<forall>b. lookup_count (tot_days_count r) b =
         int (length (filter
           (\<lambda>e. is_added e \<and> level (key e) = 5 \<and> interval (key e) = b \<and>
                \<not> (\<exists>e'\<in>set (sorted_events r). is_revoked e' \<and> key e' = key e))
           (sorted_events r)))) \<and>
      (\<forall>b. lookup_count (tot_days_count r) b \<le> diagnosed r) \<and>
      (\<exists>b. lookup_count (tot_days_count r) b = diagnosed r)) \<and>
   (level K1 = 5 \<and> level K2 = 5 \<and> level K3 = 2 \<and>
    interval K1 = b' \<and> interval K2 = b' \<and> interval K3 = b' \<and>
    K1 \<notin> R \<and> K2 \<in> R \<and> K3 \<notin> R \<longrightarrow>
      report_dts R [AddedEvent K1 d c1, AddedEvent K2 d c2, AddedEvent K3 d c3] [] [d] =
        Inr ([Some 1], [(b', 1)]))"
proof (intro conjI impI)
  assume "level K1 = 5 \<and> level K2 = 5 \<and> level K3 = 2 \<and>
    interval K1 = b' \<and> interval K2 = b' \<and> interval K3 = b' \<and>
    K1 \<notin> R \<and> K2 \<in> R \<and> K3 \<notin> R"
  then show "report_dts R [AddedEvent K1 d c1, AddedEvent K2 d c2, AddedEvent K3 d c3] [] [d] =
        Inr ([Some 1], [(b', 1)])"
    by (simp add: report_dt_def count_event_def py_max_def Let_def)
next
  assume a: "main archives last_keys = Inr r \<and> distinct (map fst archives)"
  then obtain st lines where
    x: "extract_events archives last_keys = Inr st"
    and s: "sort_events (events st) = Inr (sorted_events r)"
    and t: "report_dts (revoked_keys st) (sorted_events r) [] (dts st) = Inr (lines, tot_days_count r)"
    and m: "py_max (map snd (tot_days_count r)) = Inr (diagnosed r)"
    using main_Inr by blast
  define evs where "evs = sorted_events r"
  have se: "set evs = set (events st)" using set_sort_events [OF s] by (simp add: evs_def)
  have rv: "revoked_keys st = key ` {e \<in> set evs. is_revoked e}"
    using revoked_keys_extract_events [OF x] se by simp
  have d: "dts st = map fst archives"
    and ad: "\<forall>e\<in>set evs. is_added e \<longrightarrow> dt e \<in> set (dts st)"
    using dts_extract_events [OF x] unfolding se by blast+
  have "distinct (dts st)" using a d by simp
  from report_dts_Inr [OF this, of "revoked_keys st" evs "[]"] t
  have ok: "tally_ok (tot_days_count r)"
    and c: "\<forall>b. lookup_count (tot_days_count r) b =
              lookup_count [] b +
                int (length (filter (\<lambda>e. (is_added e \<and> level (key e) = 5 \<and>
                    key e \<notin> revoked_keys st \<and> interval (key e) = b) \<and> dt e \<in> set (dts st)) evs))"
    unfolding evs_def by (auto simp: tally_ok_Nil)
  have f: "filter (\<lambda>e. (is_added e \<and> level (key e) = 5 \<and>
                    key e \<notin> revoked_keys st \<and> interval (key e) = b) \<and> dt e \<in> set (dts st)) evs =
           filter (\<lambda>e. is_added e \<and> level (key e) = 5 \<and> interval (key e) = b \<and>
                \<not> (\<exists>e'\<in>set evs. is_revoked e' \<and> key e' = key e)) evs" for b
  proof (rule filter_cong [OF refl])
    fix e assume "e \<in> set evs"
    have "key e \<notin> revoked_keys st \<longleftrightarrow> \<not> (\<exists>e'\<in>set evs. is_revoked e' \<and> key e' = key e)"
      unfolding rv image_iff by (metis (mono_tags, lifting) mem_Collect_eq)
    then show "((is_added e \<and> level (key e) = 5 \<and>
                    key e \<notin> revoked_keys st \<and> interval (key e) = b) \<and> dt e \<in> set (dts st)) =
          (is_added e \<and> level (key e) = 5 \<and> interval (key e) = b \<and>
                \<not> (\<exists>e'\<in>set evs. is_revoked e' \<and> key e' = key e))"
      using ad \<open>e \<in> set evs\<close> by blast
  qed
  show "\<forall>b. lookup_count (tot_days_count r) b =
         int (length (filter
           (\<lambda>e. is_added e \<and> level (key e) = 5 \<and> interval (key e) = b \<and>
                \<not> (\<exists>e'\<in>set (sorted_events r). is_revoked e' \<and> key e' = key e))
           (sorted_events r)))"
    using c f unfolding evs_def by (simp add: lookup_count_def)
  from py_max_Inr_iff [OF m] have ne: "tot_days_count r \<noteq> []"
    and mx: "diagnosed r = Max (set (map snd (tot_days_count r)))" by auto
  show "\<forall>b. lookup_count (tot_days_count r) b \<le> diagnosed r"
    unfolding mx using lookup_count_le_Max [OF ok ne] by blast
  show "\<exists>b. lookup_count (tot_days_count r) b = diagnosed r"
    unfolding mx using lookup_count_attains_Max [OF ok ne] by blast
qed

text \<open>
  Two archives of the same datetime: the run has one added event, of a key of level 5
  that is never revoked, and its start interval is counted 2.
\<close>

theorem unrevoked_red_keys_count_counterexample:
  "main [(1593734400, [key_A]), (1593734400, [key_A])] [key_A] =
     Inr \<lparr>sorted_events = [AddedEvent key_A 1593734400 False],
          diagnosed_per_dt = [Some 1, Some 1],
          tot_days_count = [(2655360, 2)],
          diagnosed = 2\<rparr>"
  by (simp add: report_defs extract_defs sort_defs key_defs)

theorem unrevoked_red_keys_count_witness:
  "\<exists>r. main [(1593734400, [key_A, key_C]), (1593820800, [key_A, key_C]), (1593907200, [key_A])]
          [key_A] = Inr r \<and>
       distinct (map fst [(1593734400::int, [key_A, key_C]), (1593820800, [key_A, key_C]),
                          (1593907200, [key_A])]) \<and>
       tot_days_count r = [(2655360, 1)] \<and>
       lookup_count (tot_days_count r) 2655360 \<le> diagnosed r \<and>
       diagnosed r = 1 \<and>
       level key_A = 5 \<and> level key_C = 5 \<and> level key_B = 2 \<and>
       interval key_A = 2655360 \<and> interval key_C = 2655360 \<and> interval key_B = 2655360 \<and>
       key_A \<notin> {key_C} \<and> key_C \<in> {key_C} \<and> key_B \<notin> {key_C} \<and>
       report_dts {key_C}
         [AddedEvent key_A 1593734400 False, AddedEvent key_C 1593734400 False,
          AddedEvent key_B 1593734400 False] [] [1593734400] =
         Inr ([Some 1], [(2655360, 1)])"
proof -
  let ?A = "[(1593734400::int, [key_A, key_C]), (1593820800, [key_A, key_C]),
             (1593907200, [key_A])]"
  obtain r where m: "main ?A [key_A] = Inr r"
    and t: "tot_days_count r = [(2655360, 1)]" and g: "diagnosed r = 1"
    using main_example by simp
  have d: "distinct (map fst ?A)" by simp
  have k: "level key_A = 5 \<and> level key_C = 5 \<and> level key_B = 2 \<and>
       interval key_A = 2655360 \<and> interval key_C = 2655360 \<and> interval key_B = 2655360 \<and>
       key_A \<notin> {key_C} \<and> key_C \<in> {key_C} \<and> key_B \<notin> {key_C}"
    by (simp add: key_defs)
  note T = unrevoked_red_keys_count
    [where archives = ?A and last_keys = "[key_A]" and r = r
       and ?K1.0 = key_A and ?K2.0 = key_C and ?K3.0 = key_B and b' = 2655360
       and R = "{key_C}" and d = 1593734400 and ?c1.0 = False and ?c2.0 = False
       and ?c3.0 = False]
  from T m d have le: "lookup_count (tot_days_count r) 2655360 \<le> diagnosed r" by blast
  from T k have x: "report_dts {key_C}
         [AddedEvent key_A 1593734400 False, AddedEvent key_C 1593734400 False,
          AddedEvent key_B 1593734400 False] [] [1593734400] =
         Inr ([Some 1], [(2655360, 1)])" by blast
  from m d t le g k x show ?thesis by blast
qed

section \<open>A single archive\<close>

text \<open>
  Claim C4, as the code has it. With a single archive the extractor raises nothing.
  No transition is walked, but the pass for the last archive compares it with the
  14-day archive: it appends one added event, dated with the single archive, for
  every key that the two archives share, and no other event. So there are no events
  exactly when the two archives share no key.
\<close>

theorem single_archive_events:
  "\<exists>st. extract_events [(d, ks)] last_keys = Inr st \<and>
        map key (events st) = inter_keys last_keys ks \<and>
        set (map key (events st)) = set ks \<inter> set last_keys \<and>
        (\<forall>e\<in>set (events st). is_added e \<and> dt e = d) \<and>
        (set ks \<inter> set last_keys = {} \<longrightarrow> events st = [])"
proof -
  define s0 where "s0 = init\<lparr>dts := [d], prev := Some (ks, d)\<rparr>"
  define st where "st = find_adds d (inter_keys last_keys ks) s0"
  have r: "extract_events [(d, ks)] last_keys = Inr st"
    unfolding st_def s0_def by (rule extract_events_single)
  have e0: "events s0 = []" "all_keys s0 = []" by (simp_all add: s0_def init_def)
  have k: "map key (events st) = inter_keys last_keys ks"
    unfolding st_def using keys_of_find_adds [OF distinct_inter_keys, of d last_keys ks s0] e0
    by simp
  have s: "set (map key (events st)) = set ks \<inter> set last_keys"
    unfolding k set_inter_keys by blast
  obtain new where "events st = events s0 @ new"
    "\<forall>e\<in>set new. is_added e \<and> key e \<in> set (inter_keys last_keys ks) \<and>
        key e \<notin> set (all_keys s0) \<and> dt e = d"
    using events_find_adds [of d "inter_keys last_keys ks" s0] unfolding st_def by blast
  then have a: "\<forall>e\<in>set (events st). is_added e \<and> dt e = d" using e0 by simp
  have z: "set ks \<inter> set last_keys = {} \<longrightarrow> events st = []"
  proof
    assume "set ks \<inter> set last_keys = {}"
    then have "set (map key (events st)) = {}" using s by simp
    then show "events st = []" by simp
  qed
  have "extract_events [(d, ks)] last_keys = Inr st \<and>
        map key (events st) = inter_keys last_keys ks \<and>
        set (map key (events st)) = set ks \<inter> set last_keys \<and>
        (\<forall>e\<in>set (events st). is_added e \<and> dt e = d) \<and>
        (set ks \<inter> set last_keys = {} \<longrightarrow> events st = [])"
    using r k s a z by (intro conjI)
  then show ?thesis ..
qed

theorem single_archive_counterexample:
  "map_sum id events (extract_events [(1593734400, [key_A])] [key_A]) =
     Inr [AddedEvent key_A 1593734400 False]"
  by (simp add: extract_defs key_defs)

theorem single_archive_events_witness:
  "(\<exists>st. extract_events [(1593734400, [key_A, key_B])] [key_B, key_C] = Inr st \<and>
         map key (events st) = [key_B] \<and>
         is_added (hd (events st)) \<and> dt (hd (events st)) = 1593734400) \<and>
   (\<exists>st. extract_events [(1593734400, [key_A])] [key_B] = Inr st \<and>
         set [key_A] \<inter> set [key_B] = {} \<and> events st = [])"
proof -
  from single_archive_events [of 1593734400 "[key_A, key_B]" "[key_B, key_C]"]
  obtain s1 where 1: "extract_events [(1593734400, [key_A, key_B])] [key_B, key_C] = Inr s1"
    "map key (events s1) = inter_keys [key_B, key_C] [key_A, key_B]"
    "\<forall>e\<in>set (events s1). is_added e \<and> dt e = 1593734400"
    by blast
  have i: "inter_keys [key_B, key_C] [key_A, key_B] = [key_B]"
    by (simp add: inter_keys_def key_defs)
  then have m: "map key (events s1) = [key_B]" using 1(2) by simp
  then have "events s1 \<noteq> []" by auto
  then have "hd (events s1) \<in> set (events s1)" by simp
  then have h: "is_added (hd (events s1)) \<and> dt (hd (events s1)) = 1593734400"
    using 1(3) by blast
  from single_archive_events [of 1593734400 "[key_A]" "[key_B]"]
  obtain s2 where 2: "extract_events [(1593734400, [key_A])] [key_B] = Inr s2"
    "set [key_A] \<inter> set [key_B] = {} \<longrightarrow> events s2 = []"
    by blast
  have dj: "set [key_A] \<inter> set [key_B] = {}" by (simp add: key_defs)
  then have "events s2 = []" using 2(2) by blast
  then have second: "\<exists>st. extract_events [(1593734400, [key_A])] [key_B] = Inr st \<and>
         set [key_A] \<inter> set [key_B] = {} \<and> events st = []"
    using 2(1) dj by (intro exI [of _ s2] conjI)
  have first: "\<exists>st. extract_events [(1593734400, [key_A, key_B])] [key_B, key_C] = Inr st \<and>
         map key (events st) = [key_B] \<and>
         is_added (hd (events st)) \<and> dt (hd (events st)) = 1593734400"
    using 1(1) m h by (intro exI [of _ s1]) simp
  from first second show ?thesis by (rule conjI)
qed


section \<open>The flag \<^verbatim>\<open>changed\<close> of an added event\<close>

text \<open>
  Claim C2 says that \<^verbatim>\<open>changed\<close> is set when a key with the same data and other
  metadata was added at any earlier point of the run. The script looks only at the
  keys that are in \<^verbatim>\<open>all_keys\<close> at that moment, and a key that has departed has been
  removed from it. In this run the key of level 2 is added and revoked, and then a key
  with the same data and level 5 is added: its flag is \<^verbatim>\<open>False\<close>.
\<close>

theorem changed_ignores_departed_keys:
  "map_sum id events
     (extract_events
        [(1593734400, [key_A2]), (1593820800, [key_A2]), (1593907200, []),
         (1593993600, [key_A]), (1594080000, [key_A])] []) =
     Inr [AddedEvent key_A2 1593734400 False,
          RevokedEvent key_A2 1593907200 1593734400,
          AddedEvent key_A 1593993600 False] \<and>
   data key_A2 = data key_A \<and> level key_A2 \<noteq> level key_A"
  by (simp add: extract_defs key_defs key_A2_def)

section \<open>No unrevoked key of level 5\<close>

text \<open>
  Claim C5 says that the script reports zero when no added event has a key of level 5
  that is not revoked. Then \<^verbatim>\<open>tot_days_count\<close> stays empty and the last line,
  \<^verbatim>\<open>max(tot_days_count.values())\<close>, raises \<^verbatim>\<open>ValueError\<close>; the line of each archive is
  guarded by \<^verbatim>\<open>if days_count:\<close> and is skipped. Here the only key has level 2.
\<close>

theorem no_red_key_raises:
  "main [(1593734400, [key_B]), (1593820800, [key_B])] [key_B] = Inl ValueError \<and>
   map_sum id events (extract_events [(1593734400, [key_B]), (1593820800, [key_B])] [key_B]) =
     Inr [AddedEvent key_B 1593734400 False] \<and>
   report_dts {} [AddedEvent key_B 1593734400 False] [] [1593734400, 1593820800] =
     Inr ([None, None], []) \<and>
   py_max (map snd []) = Inl ValueError"
  by (simp add: report_defs extract_defs sort_defs key_defs)

end
